theory Spec2Isabelle
  imports Main "HOL-Library.Product_Lexorder"
begin

section \<open>Tokens and source locations\<close>

text \<open>
  The classes that \<^verbatim>\<open>parser.cpp\<close> names, the class of \<^verbatim>\<open>Token::EMPTY\<close>, and
  \<open>TK_OTHER\<close> for any class of the enum that the parser never names
  (the enum's declaration, \<^verbatim>\<open>token.hpp\<close>, is not among the sources).
\<close>

datatype TokenClass =
    TK_EMPTY
  | TK_INTEGER
  | TK_FLOAT
  | TK_STRING
  | TK_IDENT
  | TK_LABEL
  | TK_DIRECTIVE
  | TK_INTERPOLATION
  | TK_REG
  | TK_LOCAL
  | TK_NEWLINE
  | TK_OPEN_PARENTH
  | TK_OPEN_BRACKET
  | TK_OPEN_BRACE
  | TK_CLOSE_BRACE
  | TK_OTHER nat

record SourceLocation =
  getFileName :: string
  getLine :: int
  getColumn :: int

record Token =
  getTokenClass :: TokenClass
  getValue :: string
  getLocation :: SourceLocation

text \<open>
  Modelled from the spec: \<^verbatim>\<open>Token::EMPTY\<close> and the truth value of a token
  (\<^verbatim>\<open>token.hpp\<close> is missing). The spec calls the empty token the end-of-stream sentinel
  and says that a token is true when it is a non-empty valid token.
\<close>

definition SourceLocation_eof :: SourceLocation where
  "SourceLocation_eof = \<lparr>getFileName = [], getLine = - 1, getColumn = - 1\<rparr>"

definition Token_EMPTY :: Token where
  "Token_EMPTY = \<lparr>getTokenClass = TK_EMPTY, getValue = [], getLocation = SourceLocation_eof\<rparr>"

definition empty_tok :: "Token \<Rightarrow> bool" where
  "empty_tok t = (getTokenClass t = TK_EMPTY)"

section \<open>The token stream\<close>

text \<open>
  Modelled from the spec: the class \<^verbatim>\<open>TokenStream\<close> (\<^verbatim>\<open>token_stream.hpp\<close> is missing).
  Section 4.2 of the spec: an indexed buffer of tokens with a movable read cursor;
  \<open>peek\<close> looks ahead without consuming and returns the empty token past the end,
  \<open>next\<close> advances the cursor and fails silently past the end by returning the empty
  token, \<open>rewind\<close> moves the cursor back one position.
\<close>

record TokenStream =
  m_tokens :: "Token list"
  m_position :: nat

definition getSize :: "TokenStream \<Rightarrow> nat" where
  "getSize ts = length (m_tokens ts)"

definition hasNext :: "TokenStream \<Rightarrow> bool" where
  "hasNext ts = (m_position ts < length (m_tokens ts))"

definition peek :: "int \<Rightarrow> TokenStream \<Rightarrow> Token" where
  "peek n ts =
     (let pos = int (m_position ts) + n
      in if 0 \<le> pos \<and> pos < int (length (m_tokens ts)) then m_tokens ts ! nat pos
         else Token_EMPTY)"

definition next_tok :: "TokenStream \<Rightarrow> Token \<times> TokenStream" where
  "next_tok ts =
     (if m_position ts < length (m_tokens ts)
      then (m_tokens ts ! m_position ts, ts\<lparr>m_position := m_position ts + 1\<rparr>)
      else (Token_EMPTY, ts))"

text \<open>
  The parser rewinds only right after a \<open>next\<close> that advanced the cursor; at position 0
  the cursor stays where it is.
\<close>

definition rewind :: "TokenStream \<Rightarrow> TokenStream" where
  "rewind ts = (if m_position ts = 0 then ts else ts\<lparr>m_position := m_position ts - 1\<rparr>)"

text \<open>\<open>last\<close> is only called on a stream that holds a token; on an empty one it gives the empty token.\<close>

definition last_tok :: "TokenStream \<Rightarrow> Token" where
  "last_tok ts = (if m_tokens ts = [] then Token_EMPTY else last (m_tokens ts))"

section \<open>Diagnostics\<close>

datatype ErrorLevel = LEVEL_INFO | LEVEL_WARN | LEVEL_ERROR

datatype ErrorMessage =
    Msg_expected_identifier
  | Msg_expected_token
  | Msg_expected_end_of_statement
  | Msg_unexpected_eof
  | Msg_unexpected_eol
  | Msg_unexpected_token
  | Msg_undeclared_identifier
  | Msg_illegal_expression
  | Msg_unknown_opcode

text \<open>
  The context text of a diagnostic. \<^verbatim>\<open>Token::tokenTypeToString\<close> is not among the sources:
  the name it gives to a token class is kept symbolic as \<open>ErrTokenType\<close>.
\<close>

datatype ErrorText = ErrText string | ErrTokenType TokenClass

record CompilerError =
  getLevel :: ErrorLevel
  getMessage :: ErrorMessage
  getErrorLocation :: SourceLocation
  getText :: ErrorText

text \<open>
  Modelled from the spec: the class \<^verbatim>\<open>ErrorList\<close> (its header is missing). The diagnostic
  list is append-only, it is sorted by source location before reporting, and any diagnostic
  at error severity or above makes it fatal.
\<close>

definition addError :: "CompilerError \<Rightarrow> CompilerError list \<Rightarrow> CompilerError list" where
  "addError e es = es @ [e]"

definition sortErrors :: "CompilerError list \<Rightarrow> CompilerError list" where
  "sortErrors es =
     sort_key (\<lambda>e. (getLine (getErrorLocation e), getColumn (getErrorLocation e))) es"

definition hasFatalErrors :: "CompilerError list \<Rightarrow> bool" where
  "hasFatalErrors es = list_ex (\<lambda>e. getLevel e = LEVEL_ERROR) es"

section \<open>Object locations and the syntax tree\<close>

text \<open>The enumeration \<^verbatim>\<open>ObjLoc::DataStoreLocation\<close> with its numeric values, and the class \<^verbatim>\<open>ObjLoc\<close>.\<close>

datatype DataStoreLocation =
    NullDataStore
  | StaticDataStore
  | LocalDataStore
  | RegisterDataStore

fun DataStoreLocation_value :: "DataStoreLocation \<Rightarrow> nat" where
  "DataStoreLocation_value NullDataStore = 0"
| "DataStoreLocation_value StaticDataStore = 1"
| "DataStoreLocation_value LocalDataStore = 2"
| "DataStoreLocation_value RegisterDataStore = 3"

text \<open>
  The value of an object of a C++ integer type. A local that is declared without an
  initializer and never written holds an indeterminate value.
\<close>

datatype cxx_int = Determinate int | Indeterminate

record ObjLoc =
  m_location :: cxx_int
  m_dataStoreLocation :: DataStoreLocation

datatype JumpMode =
    JumpNone
  | JumpIfEqual
  | JumpIfNotEqual
  | JumpIfGreater
  | JumpIfGreaterOrEqual

text \<open>
  The node classes that the parser constructs, each with the arguments of the constructor
  call in \<^verbatim>\<open>parser.cpp\<close>. A statement pointer may hold an expression: \<open>AstExpr\<close>.
\<close>

datatype AstExpression =
    AstIdentifier string SourceLocation
  | AstLabel string SourceLocation
  | AstIntegerLiteral cxx_int SourceLocation
  | AstStringLiteral string SourceLocation
  | AstDataLocation cxx_int DataStoreLocation SourceLocation

datatype AstStatement =
    AstExpr AstExpression
  | AstDirective string "AstExpression list" string SourceLocation
  | AstLabelDecl string AstExpression SourceLocation
  | AstJmpStatement AstExpression JumpMode SourceLocation
  | AstCmpStatement AstExpression AstExpression SourceLocation

section \<open>The compilation unit\<close>

text \<open>
  Modelled from the spec: the symbol table \<^verbatim>\<open>BoundGlobals\<close> (its header is missing):
  a mapping from names to expressions with \<open>set\<close>, \<open>setParent\<close> and a \<open>get\<close> that
  falls back to the parent table when there is one.
\<close>

datatype BoundGlobals = BoundGlobals (m_map: "string \<rightharpoonup> AstExpression") (m_parent: "BoundGlobals option")

fun bg_get :: "BoundGlobals \<Rightarrow> string \<Rightarrow> AstExpression option" where
  "bg_get (BoundGlobals m par) name =
     (case m name of
        Some v \<Rightarrow> Some v
      | None \<Rightarrow> (case par of None \<Rightarrow> None | Some g \<Rightarrow> bg_get g name))"

fun bg_set :: "string \<Rightarrow> AstExpression \<Rightarrow> BoundGlobals \<Rightarrow> BoundGlobals" where
  "bg_set name v (BoundGlobals m par) = BoundGlobals (m(name \<mapsto> v)) par"

fun setParent :: "BoundGlobals \<Rightarrow> BoundGlobals \<Rightarrow> BoundGlobals" where
  "setParent par (BoundGlobals m _) = BoundGlobals m (Some par)"

record CompilationUnit =
  m_errorList :: "CompilerError list"
  m_boundGlobals :: BoundGlobals
  m_variableMode :: bool

text \<open>The constructor of \<^verbatim>\<open>compilation_unit.cpp\<close>: nothing recorded, nothing bound, variable mode off.\<close>

definition CompilationUnit_new :: CompilationUnit where
  "CompilationUnit_new =
     \<lparr>m_errorList = [], m_boundGlobals = BoundGlobals Map.empty None, m_variableMode = False\<rparr>"

section \<open>The parser\<close>

record Parser =
  m_astIterator :: "AstStatement list"
  m_tokenStream :: TokenStream
  m_compilationUnit :: CompilationUnit

definition report :: "ErrorMessage \<Rightarrow> SourceLocation \<Rightarrow> ErrorText \<Rightarrow> Parser \<Rightarrow> Parser" where
  "report msg loc str p =
     p\<lparr>m_compilationUnit := (m_compilationUnit p)
         \<lparr>m_errorList := addError
            \<lparr>getLevel = LEVEL_ERROR, getMessage = msg, getErrorLocation = loc, getText = str\<rparr>
            (m_errorList (m_compilationUnit p))\<rparr>\<rparr>"

definition advance :: "Parser \<Rightarrow> Parser" where
  "advance p = p\<lparr>m_tokenStream := snd (next_tok (m_tokenStream p))\<rparr>"

definition match :: "TokenClass \<Rightarrow> bool \<Rightarrow> Parser \<Rightarrow> Token \<times> Parser" where
  "match tokenClass read p =
     (let tok = peek 0 (m_tokenStream p)
      in if \<not> empty_tok tok \<and> getTokenClass tok = tokenClass
         then (tok, if read \<and> hasNext (m_tokenStream p) then advance p else p)
         else (Token_EMPTY, p))"

definition matchAhead :: "TokenClass \<Rightarrow> int \<Rightarrow> Parser \<Rightarrow> Token \<times> Parser" where
  "matchAhead tokenClass n p =
     (let tok = peek n (m_tokenStream p)
      in if \<not> empty_tok tok \<and> getTokenClass tok = tokenClass then (tok, p)
         else (Token_EMPTY, p))"

definition cursor :: "Parser \<Rightarrow> nat" where
  "cursor p = m_position (m_tokenStream p)"

definition currentLocation :: "Parser \<Rightarrow> SourceLocation" where
  "currentLocation p =
     (let ts = m_tokenStream p
      in if getSize ts \<noteq> 0 \<and> \<not> hasNext ts then getLocation (last_tok ts)
         else getLocation (peek 0 ts))"

definition expect :: "TokenClass \<Rightarrow> bool \<Rightarrow> Parser \<Rightarrow> Token \<times> Parser" where
  "expect tokenClass read p =
     (case match tokenClass read p of
        (token, p1) \<Rightarrow>
          if empty_tok token
          then (token,
                report (if tokenClass = TK_IDENT then Msg_expected_identifier else Msg_expected_token)
                  (currentLocation p1)
                  (if tokenClass = TK_IDENT then ErrText [] else ErrTokenType tokenClass) p1)
          else (token, p1))"

text \<open>
  The \<^verbatim>\<open>do ... while\<close> loop of \<open>expectEndOfStmt\<close>: skip one token, then go on while the
  stream has a token that is not a newline; a newline is consumed and ends the loop.
\<close>

function skipToEndOfStmt :: "Parser \<Rightarrow> Parser" where
  "skipToEndOfStmt p =
     (let p1 = advance p
      in if hasNext (m_tokenStream p1)
         then (case match TK_NEWLINE True p1 of
                 (t, p2) \<Rightarrow> if empty_tok t then skipToEndOfStmt p2 else p2)
         else p1)"
  by pat_completeness auto

definition expectEndOfStmt :: "Parser \<Rightarrow> bool \<times> Parser" where
  "expectEndOfStmt p =
     (let location = currentLocation p
      in case match TK_NEWLINE True p of
           (t, p1) \<Rightarrow>
             if empty_tok t
             then (False, skipToEndOfStmt (report Msg_expected_end_of_statement location (ErrText []) p1))
             else (True, p1))"

function skipStatementTerminators :: "Parser \<Rightarrow> Parser" where
  "skipStatementTerminators p =
     (case match TK_NEWLINE True p of
        (t, p1) \<Rightarrow> if \<not> empty_tok t then skipStatementTerminators p1 else p1)"
  by pat_completeness auto

subsection \<open>Reading an integer from the text of a token\<close>

text \<open>
  The statements \<^verbatim>\<open>int value; ss >> value;\<close> on a fresh string stream over the text of the
  token, by the C++ standard library (since C++11). Leading white space is skipped; when the
  text ends there (an empty or blank text), the stream fails before anything is extracted
  and the local, which has no initializer, is left as it is: its value is indeterminate.
  Otherwise an optional sign and the longest run of decimal digits are read; with no digit
  the value 0 is stored, and a number outside the range of the target type is replaced by
  the nearest bound of the type.
\<close>

definition isspace_c :: "char \<Rightarrow> bool" where
  "isspace_c c = (c \<in> set [CHR '' '', CHR 0x09, CHR 0x0A, CHR 0x0B, CHR 0x0C, CHR 0x0D])"

definition isdigit_c :: "char \<Rightarrow> bool" where
  "isdigit_c c = (48 \<le> (of_char c :: nat) \<and> (of_char c :: nat) \<le> 57)"

fun digits_value :: "int \<Rightarrow> string \<Rightarrow> int" where
  "digits_value acc [] = acc"
| "digits_value acc (c # cs) = digits_value (acc * 10 + (int (of_char c) - 48)) cs"

definition istream_read :: "int \<Rightarrow> int \<Rightarrow> string \<Rightarrow> cxx_int" where
  "istream_read lo hi s =
     (case dropWhile isspace_c s of
        [] \<Rightarrow> Indeterminate
      | c # cs \<Rightarrow>
          (let neg = (c = CHR ''-'');
               s2 = (if c = CHR ''-'' \<or> c = CHR ''+'' then cs else c # cs);
               ds = takeWhile isdigit_c s2;
               v = (if neg then - digits_value 0 ds else digits_value 0 ds)
           in if ds = [] then Determinate 0
              else if v < lo then Determinate lo
              else if hi < v then Determinate hi
              else Determinate v))"

definition INT_MIN :: int where "INT_MIN = - (2 ^ 31)"

definition INT_MAX :: int where "INT_MAX = 2 ^ 31 - 1"

definition INT64_MIN :: int where "INT64_MIN = - (2 ^ 63)"

definition INT64_MAX :: int where "INT64_MAX = 2 ^ 63 - 1"

definition read_int :: "string \<Rightarrow> cxx_int" where
  "read_int s = istream_read INT_MIN INT_MAX s"

definition read_int64 :: "string \<Rightarrow> cxx_int" where
  "read_int64 s = istream_read INT64_MIN INT64_MAX s"

subsection \<open>Terms\<close>

text \<open>
  The lexer (\<^verbatim>\<open>lexer.cpp\<close>) is not among the sources. The parser takes it as a parameter:
  from a file name and a text it gives the tokens it pushes on the token stream and the
  diagnostics it adds to the compilation unit it was given.
\<close>

type_synonym Lexer = "string \<Rightarrow> string \<Rightarrow> Token list \<times> CompilerError list"

definition parseIdentifier :: "Parser \<Rightarrow> AstExpression option \<times> Parser" where
  "parseIdentifier p =
     (case expect TK_IDENT True p of
        (token, p1) \<Rightarrow>
          if \<not> empty_tok token then (Some (AstIdentifier (getValue token) (getLocation token)), p1)
          else (None, p1))"

definition parseIntegerLiteral :: "Parser \<Rightarrow> AstExpression option \<times> Parser" where
  "parseIntegerLiteral p =
     (case expect TK_INTEGER True p of
        (token, p1) \<Rightarrow>
          if \<not> empty_tok token
          then (Some (AstIntegerLiteral (read_int64 (getValue token)) (getLocation token)), p1)
          else (None, p1))"

definition parseStringLiteral :: "Parser \<Rightarrow> AstExpression option \<times> Parser" where
  "parseStringLiteral p =
     (case expect TK_STRING True p of
        (token, p1) \<Rightarrow>
          if \<not> empty_tok token then (Some (AstStringLiteral (getValue token) (getLocation token)), p1)
          else (None, p1))"

definition parseRegister :: "Parser \<Rightarrow> AstExpression option \<times> Parser" where
  "parseRegister p =
     (case expect TK_REG True p of
        (token, p1) \<Rightarrow>
          if \<not> empty_tok token
          then (Some (AstDataLocation (read_int (getValue token)) RegisterDataStore (getLocation token)), p1)
          else (None, p1))"

definition parseLocal :: "Parser \<Rightarrow> AstExpression option \<times> Parser" where
  "parseLocal p =
     (case expect TK_LOCAL True p of
        (token, p1) \<Rightarrow>
          if \<not> empty_tok token
          then (Some (AstDataLocation (read_int (getValue token)) LocalDataStore (getLocation token)), p1)
          else (None, p1))"

text \<open>
  The loop of \<open>parseInterpolation\<close> over the tokens that the lexer made of the body, a
  fresh stream read from its start. The names are looked up in the bound globals of the
  parser's own compilation unit; what the lexer reports goes to the sub-unit, which is
  dropped at the end.
\<close>

fun miniParser :: "Token list \<Rightarrow> Parser \<Rightarrow> AstExpression option \<times> Parser" where
  "miniParser [] p = (None, p)"
| "miniParser (token # rest) p =
     (if getTokenClass token = TK_IDENT
      then (case bg_get (m_boundGlobals (m_compilationUnit p)) (getValue token) of
              Some v \<Rightarrow> (Some v, p)
            | None \<Rightarrow>
                miniParser rest
                  (report Msg_undeclared_identifier (getLocation token) (ErrText (getValue token)) p))
      else miniParser rest (report Msg_expected_identifier (getLocation token) (ErrText []) p))"

definition parseInterpolation :: "Lexer \<Rightarrow> Parser \<Rightarrow> AstExpression option \<times> Parser" where
  "parseInterpolation lexer p =
     (case expect TK_INTERPOLATION True p of
        (token, p1) \<Rightarrow>
          if empty_tok token then (None, p1)
          else miniParser (fst (lexer (getFileName (getLocation token)) (getValue token))) p1)"

text \<open>\<open>match\<close> with its default second argument, which reads nothing, used as a test.\<close>

definition matches :: "TokenClass \<Rightarrow> Parser \<Rightarrow> bool" where
  "matches tokenClass p = (\<not> empty_tok (fst (match tokenClass False p)))"

definition parseTerm :: "Lexer \<Rightarrow> Parser \<Rightarrow> AstExpression option \<times> Parser" where
  "parseTerm lexer p =
     (let token = peek 0 (m_tokenStream p)
      in if empty_tok token
         then (let p1 = report Msg_unexpected_eof (currentLocation p) (ErrText []) p
               in (None, if hasNext (m_tokenStream p1) then advance p1 else p1))
         else if matches TK_IDENT p then parseIdentifier p
         else if matches TK_OPEN_PARENTH p then (None, p)
         else if matches TK_OPEN_BRACKET p then (None, p)
         else if matches TK_INTEGER p then parseIntegerLiteral p
         else if matches TK_FLOAT p then (None, p)
         else if matches TK_STRING p then parseStringLiteral p
         else if matches TK_INTERPOLATION p then parseInterpolation lexer p
         else if matches TK_REG p then parseRegister p
         else if matches TK_LOCAL p then parseLocal p
         else (let p1 = (if getTokenClass token = TK_NEWLINE
                         then report Msg_unexpected_eol (getLocation token) (ErrText []) p
                         else report Msg_unexpected_token (getLocation token)
                                (ErrText (getValue token)) p)
               in (None, if hasNext (m_tokenStream p1) then advance p1 else p1)))"

definition parseExpression :: "Lexer \<Rightarrow> Parser \<Rightarrow> AstExpression option \<times> Parser" where
  "parseExpression lexer p =
     (case parseTerm lexer p of
        (Some term, p1) \<Rightarrow> (Some term, p1)
      | (None, p1) \<Rightarrow> (None, p1))"

subsection \<open>Directives, labels and commands\<close>

text \<open>The first loop of \<open>parseDirective\<close>: the argument terms before a newline or an open brace.\<close>

function directiveArguments :: "Lexer \<Rightarrow> Parser \<Rightarrow> AstExpression list \<times> Parser" where
  "directiveArguments lexer p =
     (if hasNext (m_tokenStream p) \<and> \<not> matches TK_NEWLINE p \<and> \<not> matches TK_OPEN_BRACE p
      then (case parseTerm lexer p of
              (Some expr, p1) \<Rightarrow>
                (case directiveArguments lexer p1 of (arguments, p2) \<Rightarrow> (expr # arguments, p2))
            | (None, p1) \<Rightarrow> ([], p1))
      else ([], p))"
  by pat_completeness auto

text \<open>
  Modelled from the spec: \<^verbatim>\<open>Token::getRepr\<close> (\<^verbatim>\<open>token.hpp\<close> is missing). The spec says
  that the body of a directive is the text of its tokens joined by spaces.
\<close>

definition getRepr :: "Token \<Rightarrow> string" where
  "getRepr t = getValue t"

text \<open>The second loop of \<open>parseDirective\<close>: the body up to the brace that closes the first one.\<close>

function directiveBody :: "int \<Rightarrow> string \<Rightarrow> Parser \<Rightarrow> string \<times> Parser" where
  "directiveBody parenCounter body p =
     (if hasNext (m_tokenStream p)
      then (let parenCounter1 =
                  (if matches TK_OPEN_BRACE p then parenCounter + 1
                   else if matches TK_CLOSE_BRACE p then parenCounter - 1
                   else parenCounter)
            in if \<not> matches TK_OPEN_BRACE p \<and> matches TK_CLOSE_BRACE p \<and> parenCounter1 = 0
               then (body, advance p)
               else directiveBody parenCounter1
                      (body @ getRepr (peek 0 (m_tokenStream p)) @ '' '') (advance p))
      else (body, p))"
  by pat_completeness auto

definition parseDirective :: "Lexer \<Rightarrow> Parser \<Rightarrow> AstStatement option \<times> Parser" where
  "parseDirective lexer p =
     (case expect TK_DIRECTIVE True p of
        (token, p1) \<Rightarrow>
          if \<not> empty_tok token
          then (case directiveArguments lexer p1 of
                  (arguments, p2) \<Rightarrow>
                    (case match TK_OPEN_BRACE True p2 of
                       (brace, p3) \<Rightarrow>
                         (case (if \<not> empty_tok brace then directiveBody 1 [] p3 else ([], p3)) of
                            (body, p4) \<Rightarrow>
                              (Some (AstDirective (getValue token) arguments body (getLocation token)),
                               p4))))
          else (None, p1))"

definition parseLabel :: "Parser \<Rightarrow> AstStatement option \<times> Parser" where
  "parseLabel p =
     (case expect TK_LABEL True p of
        (token, p1) \<Rightarrow>
          if \<not> empty_tok token
          then (let astLabel = AstLabel (getValue token) (getLocation token);
                    unit = m_compilationUnit p1;
                    p2 = p1\<lparr>m_compilationUnit :=
                            unit\<lparr>m_boundGlobals :=
                              bg_set (getValue token) astLabel (m_boundGlobals unit)\<rparr>\<rparr>
                in (Some (AstLabelDecl (getValue token) astLabel (getLocation token)), p2))
          else (None, p1))"

definition jumpModeStrings :: "string \<rightharpoonup> JumpMode" where
  "jumpModeStrings =
     map_of [(''jmp'', JumpNone), (''je'', JumpIfEqual), (''jne'', JumpIfNotEqual),
             (''jg'', JumpIfGreater), (''jge'', JumpIfGreaterOrEqual)]"

definition parseCommand :: "Lexer \<Rightarrow> Parser \<Rightarrow> AstStatement option \<times> Parser" where
  "parseCommand lexer p =
     (case expect TK_IDENT True p of
        (token, p1) \<Rightarrow>
          if \<not> empty_tok token
          then (case jumpModeStrings (getValue token) of
                  Some mode \<Rightarrow>
                    (case parseExpression lexer p1 of
                       (None, p2) \<Rightarrow> (None, p2)
                     | (Some expr, p2) \<Rightarrow> (Some (AstJmpStatement expr mode (getLocation token)), p2))
                | None \<Rightarrow>
                    if getValue token = ''cmp''
                    then (case parseExpression lexer p1 of
                            (None, p2) \<Rightarrow> (None, p2)
                          | (Some left, p2) \<Rightarrow>
                              (case parseExpression lexer p2 of
                                 (None, p3) \<Rightarrow> (None, p3)
                               | (Some right, p3) \<Rightarrow>
                                   (Some (AstCmpStatement left right (getLocation token)), p3)))
                    else (case parseIdentifier (p1\<lparr>m_tokenStream := rewind (m_tokenStream p1)\<rparr>) of
                            (None, p2) \<Rightarrow> (None, p2)
                          | (Some ident, p2) \<Rightarrow> (Some (AstExpr ident), p2)))
          else (None, advance p1))"

subsection \<open>Statements\<close>

definition parseStatement :: "Lexer \<Rightarrow> Parser \<Rightarrow> AstStatement option \<times> Parser" where
  "parseStatement lexer p =
     (let p1 = skipStatementTerminators p
      in if \<not> hasNext (m_tokenStream p1) then (None, p1)
         else (case (if matches TK_DIRECTIVE p1 then parseDirective lexer p1
                     else if matches TK_LABEL p1 then parseLabel p1
                     else if matches TK_IDENT p1 then parseCommand lexer p1
                     else (case parseExpression lexer p1 of
                             (None, p2) \<Rightarrow> (None, p2)
                           | (Some expr, p2) \<Rightarrow> (Some (AstExpr expr), p2))) of
                 (res, p2) \<Rightarrow>
                   if res \<noteq> None \<and> hasNext (m_tokenStream p2) then (res, snd (expectEndOfStmt p2))
                   else (res, p2)))"

subsection \<open>The whole token stream\<close>

text \<open>
  The loop of \<open>parse\<close> with its two vectors. Whether a statement is hoisted is a virtual
  method of the statement classes, whose headers are not among the sources: the parser
  takes it as a parameter.
\<close>

function parseLoop ::
  "Lexer \<Rightarrow> (AstStatement \<Rightarrow> bool) \<Rightarrow> AstStatement list \<Rightarrow> AstStatement list \<Rightarrow> Parser
     \<Rightarrow> (AstStatement list \<times> AstStatement list) \<times> Parser" where
  "parseLoop lexer isHoisted hoisted otherStmts p =
     (if hasNext (m_tokenStream p)
      then (case parseStatement lexer p of
              (Some stmt, p1) \<Rightarrow>
                if isHoisted stmt then parseLoop lexer isHoisted (hoisted @ [stmt]) otherStmts p1
                else parseLoop lexer isHoisted hoisted (otherStmts @ [stmt]) p1
            | (None, p1) \<Rightarrow> ((hoisted, otherStmts), p1))
      else ((hoisted, otherStmts), p))"
  by pat_completeness auto

text \<open>\<open>AstIterator::push\<close> appends a statement to the sequence.\<close>

definition parse :: "Lexer \<Rightarrow> (AstStatement \<Rightarrow> bool) \<Rightarrow> Parser \<Rightarrow> Parser" where
  "parse lexer isHoisted p =
     (case parseLoop lexer isHoisted [] [] (skipStatementTerminators p) of
        ((hoisted, otherStmts), p1) \<Rightarrow>
          p1\<lparr>m_astIterator := m_astIterator p1 @ hoisted @ otherStmts\<rparr>)"

text \<open>
  The statements that the loop of \<open>parse\<close> gets from \<open>parseStatement\<close>, in the order in
  which they are parsed, and the parser after the loop. This is the same loop with one list,
  used to state what the two vectors of \<open>parseLoop\<close> hold.
\<close>

function parsedStatements :: "Lexer \<Rightarrow> Parser \<Rightarrow> AstStatement list \<times> Parser" where
  "parsedStatements lexer p =
     (if hasNext (m_tokenStream p)
      then (case parseStatement lexer p of
              (Some stmt, p1) \<Rightarrow>
                (case parsedStatements lexer p1 of (stmts, p2) \<Rightarrow> (stmt # stmts, p2))
            | (None, p1) \<Rightarrow> ([], p1))
      else ([], p))"
  by pat_completeness auto

section \<open>The driver\<close>

text \<open>
  Modelled from the spec: the analyzer and the compiler (\<^verbatim>\<open>analyzer.cpp\<close> and
  \<^verbatim>\<open>compiler.cpp\<close> are missing). The analyzer walks the sequence and accumulates
  diagnostics into the list of the unit: it is a parameter that gives the diagnostics to
  append. The compiler makes a single forward pass over the sequence, invoking the build
  operation of each node on a fresh chunk; the build operation of the nodes is a parameter.
  A chunk is a buffer of bytes.
\<close>

type_synonym BytecodeChunk = "char list"

type_synonym Analyzer = "AstStatement list \<Rightarrow> CompilationUnit \<Rightarrow> CompilerError list"

type_synonym Build =
  "AstStatement \<Rightarrow> CompilationUnit \<times> BytecodeChunk \<Rightarrow> CompilationUnit \<times> BytecodeChunk"

definition compile :: "Build \<Rightarrow> AstStatement list \<Rightarrow> CompilationUnit \<Rightarrow> BytecodeChunk" where
  "compile build ast unit = snd (foldl (\<lambda>st stmt. build stmt st) (unit, []) ast)"

text \<open>The parser that \<open>buildSourceFile\<close> makes: a fresh sequence of statements, the token stream at its start and the unit.\<close>

definition Parser_new :: "Token list \<Rightarrow> CompilationUnit \<Rightarrow> Parser" where
  "Parser_new toks unit =
     \<lparr>m_astIterator = [], m_tokenStream = \<lparr>m_tokens = toks, m_position = 0\<rparr>,
      m_compilationUnit = unit\<rparr>"

text \<open>
  The two halves of \<open>buildSourceFile\<close> before its test: the parser after the lexer and
  \<open>parse\<close> have run, and the unit after the analyzer has run on it and the list of
  diagnostics has been sorted.
\<close>

definition analyzedParser :: "Lexer \<Rightarrow> (AstStatement \<Rightarrow> bool) \<Rightarrow> string \<Rightarrow> string \<Rightarrow> CompilationUnit \<Rightarrow> Parser" where
  "analyzedParser lexer isHoisted filename text unit =
     (case lexer filename text of
        (tokens, lexErrors) \<Rightarrow>
          parse lexer isHoisted
            (Parser_new tokens (unit\<lparr>m_errorList := m_errorList unit @ lexErrors\<rparr>)))"

definition analyzedUnit ::
  "Lexer \<Rightarrow> (AstStatement \<Rightarrow> bool) \<Rightarrow> Analyzer \<Rightarrow> string \<Rightarrow> string \<Rightarrow> CompilationUnit \<Rightarrow> CompilationUnit" where
  "analyzedUnit lexer isHoisted analyzer filename text unit =
     (let parser = analyzedParser lexer isHoisted filename text unit;
          unit1 = m_compilationUnit parser;
          unit2 = unit1\<lparr>m_errorList := m_errorList unit1 @ analyzer (m_astIterator parser) unit1\<rparr>
      in unit2\<lparr>m_errorList := sortErrors (m_errorList unit2)\<rparr>)"

text \<open>
  \<open>buildSourceFile\<close>: the file is \<open>None\<close> when it could not be opened, else its bytes.
  The result is the pair that the function returns, with the diagnostics that
  \<open>writeOutput\<close> renders in place of their text, and the local chunk that
  \<open>compile\<close> filled, when it ran.
\<close>

definition buildSourceFile ::
  "Lexer \<Rightarrow> (AstStatement \<Rightarrow> bool) \<Rightarrow> Analyzer \<Rightarrow> Build \<Rightarrow> string \<Rightarrow> string option \<Rightarrow> CompilationUnit
     \<Rightarrow> (bool \<times> CompilerError list) \<times> BytecodeChunk option" where
  "buildSourceFile lexer isHoisted analyzer build filename file unit =
     (case file of
        None \<Rightarrow> ((False, []), None)
      | Some text \<Rightarrow>
          (let unit1 = analyzedUnit lexer isHoisted analyzer filename text unit;
               ast = m_astIterator (analyzedParser lexer isHoisted filename text unit)
           in if \<not> hasFatalErrors (m_errorList unit1)
              then ((True, []), Some (compile build ast unit1))
              else ((False, m_errorList unit1), None)))"


section \<open>Notions for the proofs\<close>

subsection \<open>Progress and what a parsing step keeps\<close>

definition remaining :: "Parser \<Rightarrow> nat" where
  "remaining p = length (m_tokens (m_tokenStream p)) - cursor p"

definition noback :: "Parser \<Rightarrow> Parser \<Rightarrow> bool" where
  "noback p p' =
     (m_tokens (m_tokenStream p') = m_tokens (m_tokenStream p) \<and> remaining p' \<le> remaining p)"

definition progress :: "Parser \<Rightarrow> Parser \<Rightarrow> bool" where
  "progress p p' =
     (m_tokens (m_tokenStream p') = m_tokens (m_tokenStream p) \<and> remaining p' < remaining p)"

text \<open>The diagnostic that the loop of \<open>parseInterpolation\<close> makes of a token that gives no value.\<close>

definition interpolationError :: "Token \<Rightarrow> CompilerError" where
  "interpolationError t =
     (if getTokenClass t = TK_IDENT
      then \<lparr>getLevel = LEVEL_ERROR, getMessage = Msg_undeclared_identifier,
            getErrorLocation = getLocation t, getText = ErrText (getValue t)\<rparr>
      else \<lparr>getLevel = LEVEL_ERROR, getMessage = Msg_expected_identifier,
            getErrorLocation = getLocation t, getText = ErrText []\<rparr>)"

definition addErrors :: "CompilerError list \<Rightarrow> Parser \<Rightarrow> Parser" where
  "addErrors es p =
     p\<lparr>m_compilationUnit := (m_compilationUnit p)
         \<lparr>m_errorList := m_errorList (m_compilationUnit p) @ es\<rparr>\<rparr>"

definition declared :: "Parser \<Rightarrow> Token \<Rightarrow> bool" where
  "declared p t =
     (getTokenClass t = TK_IDENT \<and> bg_get (m_boundGlobals (m_compilationUnit p)) (getValue t) \<noteq> None)"

text \<open>
  A parsing step leaves the sequence of statements alone, only appends to the list of
  diagnostics, and keeps every name that is bound to a label of that name bound to such a
  label.
\<close>

definition labelBound :: "BoundGlobals \<Rightarrow> string \<Rightarrow> bool" where
  "labelBound g name = (\<exists>loc. bg_get g name = Some (AstLabel name loc))"

definition keeps :: "Parser \<Rightarrow> Parser \<Rightarrow> bool" where
  "keeps p p' =
     (m_astIterator p' = m_astIterator p
      \<and> (\<exists>new. m_errorList (m_compilationUnit p') = m_errorList (m_compilationUnit p) @ new)
      \<and> (\<forall>name. labelBound (m_boundGlobals (m_compilationUnit p)) name
            \<longrightarrow> labelBound (m_boundGlobals (m_compilationUnit p')) name))"

definition notLabelDecl :: "AstStatement \<Rightarrow> bool" where
  "notLabelDecl stmt = (case stmt of AstLabelDecl name lbl loc \<Rightarrow> False | _ \<Rightarrow> True)"

text \<open>For a label declaration: its name is bound to a label of that name in the symbol table of the parser.\<close>

definition declaresBound :: "AstStatement \<Rightarrow> Parser \<Rightarrow> bool" where
  "declaresBound stmt p =
     (case stmt of
        AstLabelDecl name lbl loc \<Rightarrow> labelBound (m_boundGlobals (m_compilationUnit p)) name
      | _ \<Rightarrow> True)"

text \<open>
  The names by which a jump or a compare statement refers to its operands: those of the
  operands that are identifier references.
\<close>

fun identifierName :: "AstExpression \<Rightarrow> string list" where
  "identifierName (AstIdentifier name loc) = [name]"
| "identifierName expr = []"

fun operandNames :: "AstStatement \<Rightarrow> string list" where
  "operandNames (AstJmpStatement expr mode loc) = identifierName expr"
| "operandNames (AstCmpStatement left right loc) = identifierName left @ identifierName right"
| "operandNames stmt = []"

subsection \<open>Numerals and object locations\<close>

text \<open>The decimal numeral of an integer, as the text of a token that carries an index.\<close>

fun dec_digits :: "nat \<Rightarrow> string" where
  "dec_digits n =
     (if n < 10 then [char_of (48 + n)] else dec_digits (n div 10) @ [char_of (48 + n mod 10)])"

definition decimal :: "int \<Rightarrow> string" where
  "decimal n = (if n < 0 then CHR ''-'' # dec_digits (nat (- n)) else dec_digits (nat n))"

text \<open>
  Modelled from the spec: the object location of a data-location node (the header of
  \<^verbatim>\<open>AstDataLocation\<close> is missing). The spec says that register and local tokens become
  data-location nodes that carry an object location, the slot and the storage class that
  the parser gives to the constructor; the object location of any other expression is
  unset, the null store, until emission.
\<close>

fun getObjLoc :: "AstExpression \<Rightarrow> ObjLoc" where
  "getObjLoc (AstDataLocation v store loc) = \<lparr>m_location = v, m_dataStoreLocation = store\<rparr>"
| "getObjLoc _ = \<lparr>m_location = Determinate 0, m_dataStoreLocation = NullDataStore\<rparr>"

subsection \<open>Concrete inputs\<close>

definition example_loc :: "int \<Rightarrow> int \<Rightarrow> SourceLocation" where
  "example_loc l c = \<lparr>getFileName = ''a.s'', getLine = l, getColumn = c\<rparr>"

definition example_tok :: "TokenClass \<Rightarrow> string \<Rightarrow> int \<Rightarrow> int \<Rightarrow> Token" where
  "example_tok c v l k = \<lparr>getTokenClass = c, getValue = v, getLocation = example_loc l k\<rparr>"

definition example_parser :: "Token list \<Rightarrow> Parser" where
  "example_parser toks =
     \<lparr>m_astIterator = [], m_tokenStream = \<lparr>m_tokens = toks, m_position = 0\<rparr>,
      m_compilationUnit = CompilationUnit_new\<rparr>"

definition example_lexer :: "Token list \<Rightarrow> Lexer" where
  "example_lexer toks fileName text = (toks, [])"

text \<open>
  Modelled from the spec: which statements are hoisted (the headers of the statement
  classes are missing). The spec says that hoisting promotes directives and label
  declarations, and that it is a static property of the variant of a statement.
\<close>

fun isHoisted_spec :: "AstStatement \<Rightarrow> bool" where
  "isHoisted_spec (AstDirective name args body loc) = True"
| "isHoisted_spec (AstLabelDecl name lbl loc) = True"
| "isHoisted_spec stmt = False"

text \<open>A build operation that appends one byte for each statement, and an analyzer that finds nothing.\<close>

definition example_build :: Build where
  "example_build stmt st = (fst st, snd st @ [CHR 0x01])"

definition example_analyzer :: Analyzer where
  "example_analyzer ast unit = []"

definition jmp_then_label :: "Token list" where
  "jmp_then_label =
     [example_tok TK_IDENT ''jmp'' 1 0, example_tok TK_IDENT ''lbl'' 1 4, example_tok TK_NEWLINE [] 1 7,
      example_tok TK_LABEL ''lbl'' 2 0]"

definition interpolation_before_label :: "Token list" where
  "interpolation_before_label =
     [example_tok TK_LABEL ''other'' 1 0, example_tok TK_NEWLINE [] 1 6,
      example_tok TK_IDENT ''jmp'' 2 0, example_tok TK_INTERPOLATION ''lbl other'' 2 4,
      example_tok TK_NEWLINE [] 2 16,
      example_tok TK_LABEL ''lbl'' 3 0]"

definition interpolation_body :: "Token list" where
  "interpolation_body = [example_tok TK_IDENT ''lbl'' 2 6, example_tok TK_IDENT ''other'' 2 10]"

definition jmp_cmp_label :: "Token list" where
  "jmp_cmp_label =
     [example_tok TK_IDENT ''jmp'' 1 0, example_tok TK_IDENT ''lbl'' 1 4, example_tok TK_NEWLINE [] 1 7,
      example_tok TK_IDENT ''cmp'' 2 0, example_tok TK_NEWLINE [] 2 3,
      example_tok TK_LABEL ''lbl'' 3 0]"

definition cmp_then_label :: "Token list" where
  "cmp_then_label =
     [example_tok TK_IDENT ''cmp'' 1 0, example_tok TK_NEWLINE [] 1 3, example_tok TK_LABEL ''lbl'' 2 0]"

definition cmp_alone :: "Token list" where
  "cmp_alone = [example_tok TK_IDENT ''cmp'' 1 0]"

definition cmp_newline :: "Token list" where
  "cmp_newline = [example_tok TK_IDENT ''cmp'' 1 0, example_tok TK_NEWLINE [] 1 3]"


section \<open>Termination of the loops and progress of the parser\<close>

lemma match_empty_same: "match c r p = (t, p') \<Longrightarrow> empty_tok t \<Longrightarrow> p' = p"
  by (auto simp: match_def Let_def split: if_splits)

lemma tokens_advance [simp]: "m_tokens (m_tokenStream (advance p)) = m_tokens (m_tokenStream p)"
  by (simp add: advance_def next_tok_def)

lemma cursor_advance: "cursor (advance p) = (if hasNext (m_tokenStream p) then cursor p + 1 else cursor p)"
  by (simp add: advance_def next_tok_def cursor_def hasNext_def)

lemma remaining_advance:
  "remaining (advance p) = (if hasNext (m_tokenStream p) then remaining p - 1 else remaining p)"
  by (simp add: remaining_def cursor_advance)

lemma hasNext_remaining: "hasNext (m_tokenStream p) = (0 < remaining p)"
  by (simp add: hasNext_def remaining_def cursor_def)

termination skipToEndOfStmt
  apply (relation "measure remaining")
   apply simp
  apply (drule sym [of "(_, _)"])
  apply (drule (1) match_empty_same)
  apply (simp add: remaining_advance hasNext_remaining split: if_splits)
  done

declare skipToEndOfStmt.simps [simp del]

lemma peek_nonempty_hasNext: "\<not> empty_tok (peek 0 ts) \<Longrightarrow> hasNext ts"
  by (auto simp: peek_def hasNext_def Token_EMPTY_def empty_tok_def split: if_splits)

lemma match_read_nonempty:
  "match c True p = (t, p') \<Longrightarrow> \<not> empty_tok t \<Longrightarrow>
     p' = advance p \<and> hasNext (m_tokenStream p) \<and> t = peek 0 (m_tokenStream p) \<and> getTokenClass t = c"
  by (auto simp: match_def Let_def Token_EMPTY_def empty_tok_def peek_nonempty_hasNext split: if_splits)

termination skipStatementTerminators
  apply (relation "measure remaining")
   apply simp
  apply (drule sym [of "(_, _)"])
  apply (drule (1) match_read_nonempty)
  apply (simp add: remaining_advance hasNext_remaining)
  done

declare skipStatementTerminators.simps [simp del]

subsection \<open>Every parsing step keeps the tokens and never moves the cursor back\<close>

lemma noback_refl [simp]: "noback p p"
  by (simp add: noback_def)

lemma noback_trans: "noback p q \<Longrightarrow> noback q r \<Longrightarrow> noback p r"
  by (simp add: noback_def)

lemma progress_noback: "progress p q \<Longrightarrow> noback p q"
  by (simp add: noback_def progress_def)

lemma progress_then_noback: "progress p q \<Longrightarrow> noback q r \<Longrightarrow> progress p r"
  by (simp add: noback_def progress_def)

lemma noback_then_progress: "noback p q \<Longrightarrow> progress q r \<Longrightarrow> progress p r"
  by (simp add: noback_def progress_def)

lemma tokenStream_report [simp]: "m_tokenStream (report msg loc str p) = m_tokenStream p"
  by (simp add: report_def)

lemma remaining_report [simp]: "remaining (report msg loc str p) = remaining p"
  by (simp add: remaining_def cursor_def)

lemma noback_report [simp]: "noback p (report msg loc str p)"
  by (simp add: noback_def)

lemma noback_advance [simp]: "noback p (advance p)"
  by (simp add: noback_def remaining_advance)

lemma progress_advance: "hasNext (m_tokenStream p) \<Longrightarrow> progress p (advance p)"
  by (simp add: progress_def remaining_advance hasNext_remaining)

lemma match_noread [simp]: "snd (match c False p) = p"
  by (simp add: match_def Let_def)

lemma noback_match: "noback p (snd (match c r p))"
  by (simp add: match_def Let_def)

lemma expect_nonempty:
  "expect c True p = (t, p') \<Longrightarrow> \<not> empty_tok t \<Longrightarrow>
     p' = advance p \<and> hasNext (m_tokenStream p) \<and> t = peek 0 (m_tokenStream p) \<and> getTokenClass t = c"
  by (auto simp: expect_def split: prod.splits if_splits dest: match_read_nonempty)

lemma expect_empty:
  "expect c r p = (t, p') \<Longrightarrow> empty_tok t \<Longrightarrow>
     p' = report (if c = TK_IDENT then Msg_expected_identifier else Msg_expected_token)
            (currentLocation p) (if c = TK_IDENT then ErrText [] else ErrTokenType c) p"
  by (auto simp: expect_def split: prod.splits if_splits dest: match_empty_same)

lemma noback_expect: "noback p (snd (expect c r p))"
  by (cases "expect c r p")
     (auto simp: expect_def split: prod.splits if_splits
        intro: noback_trans [OF noback_match [of p c r, simplified]] dest: match_empty_same)

lemma expect_read_cases:
  "expect c True p = (t, p') \<Longrightarrow>
     (\<not> empty_tok t \<and> progress p p') \<or> (empty_tok t \<and> noback p p')"
proof (cases "empty_tok t")
  case True
  assume "expect c True p = (t, p')"
  from expect_empty [OF this True] True show ?thesis by simp
next
  case False
  assume "expect c True p = (t, p')"
  from expect_nonempty [OF this False] False show ?thesis by (simp add: progress_advance)
qed

lemma parseIdentifier_steps:
  "parseIdentifier p = (r, p') \<Longrightarrow> noback p p' \<and> (r \<noteq> None \<longrightarrow> progress p p')"
  by (auto simp: parseIdentifier_def split: prod.splits if_splits
        dest: expect_read_cases progress_noback)

lemma parseIntegerLiteral_steps:
  "parseIntegerLiteral p = (r, p') \<Longrightarrow> noback p p' \<and> (r \<noteq> None \<longrightarrow> progress p p')"
  by (auto simp: parseIntegerLiteral_def split: prod.splits if_splits
        dest: expect_read_cases progress_noback)

lemma parseStringLiteral_steps:
  "parseStringLiteral p = (r, p') \<Longrightarrow> noback p p' \<and> (r \<noteq> None \<longrightarrow> progress p p')"
  by (auto simp: parseStringLiteral_def split: prod.splits if_splits
        dest: expect_read_cases progress_noback)

lemma parseRegister_steps:
  "parseRegister p = (r, p') \<Longrightarrow> noback p p' \<and> (r \<noteq> None \<longrightarrow> progress p p')"
  by (auto simp: parseRegister_def split: prod.splits if_splits
        dest: expect_read_cases progress_noback)

lemma parseLocal_steps:
  "parseLocal p = (r, p') \<Longrightarrow> noback p p' \<and> (r \<noteq> None \<longrightarrow> progress p p')"
  by (auto simp: parseLocal_def split: prod.splits if_splits
        dest: expect_read_cases progress_noback)

lemma miniParser_tokenStream: "m_tokenStream (snd (miniParser toks p)) = m_tokenStream p"
  by (induction toks p rule: miniParser.induct) (auto split: option.splits)

lemma miniParser_same:
  "miniParser toks p = (r, p') \<Longrightarrow> m_tokenStream p' = m_tokenStream p"
  using miniParser_tokenStream [of toks p] by simp

lemma noback_same_stream: "noback p q \<Longrightarrow> m_tokenStream q' = m_tokenStream q \<Longrightarrow> noback p q'"
  by (auto simp: noback_def remaining_def cursor_def)

lemma progress_same_stream: "progress p q \<Longrightarrow> m_tokenStream q' = m_tokenStream q \<Longrightarrow> progress p q'"
  by (auto simp: progress_def remaining_def cursor_def)

lemma parseInterpolation_steps:
  "parseInterpolation lexer p = (r, p') \<Longrightarrow> noback p p' \<and> (r \<noteq> None \<longrightarrow> progress p p')"
  by (auto simp: parseInterpolation_def split: prod.splits if_splits
        dest!: expect_read_cases miniParser_same
        intro: noback_same_stream progress_same_stream progress_noback)

lemma parseTerm_steps:
  "parseTerm lexer p = (r, p') \<Longrightarrow> noback p p' \<and> (r \<noteq> None \<longrightarrow> progress p p')"
  unfolding parseTerm_def Let_def
  by (auto split: if_splits
        dest: parseIdentifier_steps parseIntegerLiteral_steps parseStringLiteral_steps
          parseInterpolation_steps parseRegister_steps parseLocal_steps
        intro: noback_trans [OF noback_report noback_advance])

lemma parseExpression_steps:
  "parseExpression lexer p = (r, p') \<Longrightarrow> noback p p' \<and> (r \<noteq> None \<longrightarrow> progress p p')"
  by (auto simp: parseExpression_def split: prod.splits option.splits dest: parseTerm_steps)

termination directiveArguments
  apply (relation "measure (\<lambda>(lexer, p). remaining p)")
   apply simp
  apply (drule sym [of "(_, _)"])
  apply (drule parseTerm_steps)
  apply (simp add: progress_def)
  done

declare directiveArguments.simps [simp del]

termination directiveBody
  apply (relation "measure (\<lambda>(parenCounter, body, p). remaining p)")
   apply simp
  apply (simp add: remaining_advance hasNext_remaining)
  done

declare directiveBody.simps [simp del]

lemma noback_skipStatementTerminators: "noback p (skipStatementTerminators p)"
proof (induction p rule: skipStatementTerminators.induct)
  case (1 p)
  obtain t p1 where m: "match TK_NEWLINE True p = (t, p1)"
    by (cases "match TK_NEWLINE True p")
  have nb: "noback p p1"
    using noback_match [of p TK_NEWLINE True] m by simp
  show ?case
  proof (cases "empty_tok t")
    case True
    with m nb show ?thesis by (subst skipStatementTerminators.simps) simp
  next
    case False
    with "1.IH" [OF m [symmetric]] have "noback p1 (skipStatementTerminators p1)" by simp
    with nb have "noback p (skipStatementTerminators p1)" by (rule noback_trans)
    with m False show ?thesis by (subst skipStatementTerminators.simps) simp
  qed
qed

lemma noback_skipToEndOfStmt: "noback p (skipToEndOfStmt p)"
proof (induction p rule: skipToEndOfStmt.induct)
  case (1 p)
  let ?p1 = "advance p"
  obtain t p2 where m: "match TK_NEWLINE True ?p1 = (t, p2)"
    by (cases "match TK_NEWLINE True ?p1")
  have nb: "noback p p2"
    using noback_trans [OF noback_advance noback_match [of ?p1 TK_NEWLINE True]] m by simp
  show ?case
  proof (cases "hasNext (m_tokenStream ?p1) \<and> empty_tok t")
    case True
    with "1.IH" [OF refl _ m [symmetric]] have "noback p2 (skipToEndOfStmt p2)" by simp
    with nb have "noback p (skipToEndOfStmt p2)" by (rule noback_trans)
    with m True show ?thesis by (subst skipToEndOfStmt.simps) (simp add: Let_def)
  next
    case False
    with m nb show ?thesis by (subst skipToEndOfStmt.simps) (auto simp: Let_def)
  qed
qed

lemma noback_expectEndOfStmt: "noback p (snd (expectEndOfStmt p))"
proof -
  obtain t p1 where m: "match TK_NEWLINE True p = (t, p1)"
    by (cases "match TK_NEWLINE True p")
  have nb: "noback p p1"
    using noback_match [of p TK_NEWLINE True] m by simp
  have "noback p1 (skipToEndOfStmt (report Msg_expected_end_of_statement (currentLocation p) (ErrText []) p1))"
    by (rule noback_trans [OF noback_report noback_skipToEndOfStmt])
  with nb have "noback p (skipToEndOfStmt (report Msg_expected_end_of_statement (currentLocation p) (ErrText []) p1))"
    by (rule noback_trans)
  with m nb show ?thesis by (simp add: expectEndOfStmt_def Let_def)
qed

lemma noback_directiveArguments: "noback p (snd (directiveArguments lexer p))"
proof (induction lexer p rule: directiveArguments.induct)
  case (1 lexer p)
  obtain r p1 where t: "parseTerm lexer p = (r, p1)"
    by (cases "parseTerm lexer p")
  have nb: "noback p p1" using parseTerm_steps [OF t] by simp
  show ?case
  proof (cases "hasNext (m_tokenStream p) \<and> \<not> matches TK_NEWLINE p \<and> \<not> matches TK_OPEN_BRACE p")
    case False
    then show ?thesis by (subst directiveArguments.simps) auto
  next
    case True
    show ?thesis
    proof (cases r)
      case None
      with t True nb show ?thesis by (subst directiveArguments.simps) simp
    next
      case (Some e)
      with "1.IH" [OF True t [symmetric]] have "noback p1 (snd (directiveArguments lexer p1))" by simp
      with nb have "noback p (snd (directiveArguments lexer p1))" by (rule noback_trans)
      with t True Some show ?thesis
        by (subst directiveArguments.simps) (auto split: prod.splits)
    qed
  qed
qed

lemma noback_directiveBody: "noback p (snd (directiveBody n body p))"
proof (induction n body p rule: directiveBody.induct)
  case (1 n body p)
  show ?case
  proof (cases "hasNext (m_tokenStream p)")
    case False
    then show ?thesis by (subst directiveBody.simps) simp
  next
    case True
    let ?n1 = "if matches TK_OPEN_BRACE p then n + 1
               else if matches TK_CLOSE_BRACE p then n - 1 else n"
    show ?thesis
    proof (cases "\<not> matches TK_OPEN_BRACE p \<and> matches TK_CLOSE_BRACE p \<and> ?n1 = 0")
      case stop: True
      with True show ?thesis by (subst directiveBody.simps) (auto simp: Let_def split: if_splits)
    next
      case go: False
      from "1.IH" [OF True refl go]
      have "noback (advance p)
              (snd (directiveBody ?n1 (body @ getRepr (peek 0 (m_tokenStream p)) @ '' '') (advance p)))" .
      then have "noback p
              (snd (directiveBody ?n1 (body @ getRepr (peek 0 (m_tokenStream p)) @ '' '') (advance p)))"
        by (rule noback_trans [OF noback_advance])
      with True go show ?thesis by (subst directiveBody.simps) (simp add: Let_def)
    qed
  qed
qed

lemma parseDirective_steps:
  "parseDirective lexer p = (r, p') \<Longrightarrow> noback p p' \<and> (r \<noteq> None \<longrightarrow> progress p p')"
proof -
  assume a: "parseDirective lexer p = (r, p')"
  obtain token p1 where e: "expect TK_DIRECTIVE True p = (token, p1)"
    by (cases "expect TK_DIRECTIVE True p")
  show ?thesis
  proof (cases "empty_tok token")
    case True
    with a e expect_read_cases [OF e] show ?thesis by (simp add: parseDirective_def)
  next
    case False
    with expect_read_cases [OF e] have pr: "progress p p1" by simp
    obtain arguments p2 where d: "directiveArguments lexer p1 = (arguments, p2)"
      by (cases "directiveArguments lexer p1")
    obtain brace p3 where m: "match TK_OPEN_BRACE True p2 = (brace, p3)"
      by (cases "match TK_OPEN_BRACE True p2")
    obtain body p4 where b: "(if \<not> empty_tok brace then directiveBody 1 [] p3 else ([], p3)) = (body, p4)"
      by (cases "if \<not> empty_tok brace then directiveBody 1 [] p3 else ([], p3)")
    have "noback p1 p2" using noback_directiveArguments [of p1 lexer] d by simp
    moreover have "noback p2 p3" using noback_match [of p2 TK_OPEN_BRACE True] m by simp
    moreover have "noback p3 p4" using noback_directiveBody [of p3 1 "[]"] b by (auto split: if_splits)
    ultimately have "noback p1 p4" by (blast intro: noback_trans)
    with pr have "progress p p4" by (rule progress_then_noback)
    moreover have "p' = p4" using a e False d m b by (simp add: parseDirective_def)
    ultimately show ?thesis by (simp add: progress_noback)
  qed
qed

lemma parseLabel_steps:
  "parseLabel p = (r, p') \<Longrightarrow> noback p p' \<and> (r \<noteq> None \<longrightarrow> progress p p')"
  by (auto simp: parseLabel_def Let_def split: prod.splits if_splits
        dest!: expect_read_cases
        intro: noback_same_stream progress_same_stream progress_noback)

lemma rewind_advance:
  "hasNext (m_tokenStream p) \<Longrightarrow> (advance p)\<lparr>m_tokenStream := rewind (m_tokenStream (advance p))\<rparr> = p"
  by (simp add: advance_def next_tok_def rewind_def hasNext_def)

lemma parseCommand_steps:
  "parseCommand lexer p = (r, p') \<Longrightarrow> noback p p' \<and> (r \<noteq> None \<longrightarrow> progress p p')"
proof -
  assume a: "parseCommand lexer p = (r, p')"
  obtain token p1 where e: "expect TK_IDENT True p = (token, p1)"
    by (cases "expect TK_IDENT True p")
  show ?thesis
  proof (cases "empty_tok token")
    case True
    with expect_read_cases [OF e] have "noback p p1" by simp
    then have "noback p (advance p1)" by (rule noback_trans) simp
    with a e True show ?thesis by (simp add: parseCommand_def)
  next
    case False
    from expect_nonempty [OF e False] have p1: "p1 = advance p" and hn: "hasNext (m_tokenStream p)"
      by simp_all
    from hn p1 have pr: "progress p p1" by (simp add: progress_advance)
    show ?thesis
    proof (cases "jumpModeStrings (getValue token)")
      case (Some mode)
      with a e False pr show ?thesis
        by (auto simp: parseCommand_def split: prod.splits option.splits
              dest!: parseExpression_steps
              intro: progress_then_noback progress_noback)
    next
      case None
      show ?thesis
      proof (cases "getValue token = ''cmp''")
        case True
        with a e False pr None show ?thesis
          by (auto simp: parseCommand_def split: prod.splits option.splits
                dest!: parseExpression_steps
                intro: progress_then_noback progress_noback noback_trans)
      next
        case notcmp: False
        with a e False None p1 hn show ?thesis
          by (auto simp: parseCommand_def rewind_advance split: prod.splits option.splits
                dest!: parseIdentifier_steps)
      qed
    qed
  qed
qed

lemma parseStatement_steps:
  "parseStatement lexer p = (r, p') \<Longrightarrow> noback p p' \<and> (r \<noteq> None \<longrightarrow> progress p p')"
proof -
  assume a: "parseStatement lexer p = (r, p')"
  let ?p1 = "skipStatementTerminators p"
  have nb1: "noback p ?p1" by (rule noback_skipStatementTerminators)
  show ?thesis
  proof (cases "hasNext (m_tokenStream ?p1)")
    case False
    with a nb1 show ?thesis by (auto simp: parseStatement_def Let_def)
  next
    case True
    obtain res p2 where d:
      "(if matches TK_DIRECTIVE ?p1 then parseDirective lexer ?p1
        else if matches TK_LABEL ?p1 then parseLabel ?p1
        else if matches TK_IDENT ?p1 then parseCommand lexer ?p1
        else (case parseExpression lexer ?p1 of
                (None, p2) \<Rightarrow> (None, p2)
              | (Some expr, p2) \<Rightarrow> (Some (AstExpr expr), p2))) = (res, p2)"
      by (cases "if matches TK_DIRECTIVE ?p1 then parseDirective lexer ?p1
        else if matches TK_LABEL ?p1 then parseLabel ?p1
        else if matches TK_IDENT ?p1 then parseCommand lexer ?p1
        else (case parseExpression lexer ?p1 of
                (None, p2) \<Rightarrow> (None, p2)
              | (Some expr, p2) \<Rightarrow> (Some (AstExpr expr), p2))")
    have st: "noback ?p1 p2 \<and> (res \<noteq> None \<longrightarrow> progress ?p1 p2)"
      using d
      by (auto split: if_splits prod.splits option.splits
            dest!: parseDirective_steps parseLabel_steps parseCommand_steps parseExpression_steps)
    have r: "r = res" and p': "p' = (if res \<noteq> None \<and> hasNext (m_tokenStream p2) then snd (expectEndOfStmt p2) else p2)"
      using a True d by (auto simp: parseStatement_def Let_def split: if_splits)
    have nb3: "noback p2 p'" using p' noback_expectEndOfStmt [of p2] by simp
    from nb1 st nb3 show ?thesis unfolding r
      by (blast intro: noback_trans progress_then_noback noback_then_progress)
  qed
qed

termination parseLoop
  apply (relation "measure (\<lambda>(lexer, isHoisted, hoisted, otherStmts, p). remaining p)")
    apply simp
   apply (drule sym [of "(_, _)"])
   apply (drule parseStatement_steps)
   apply (simp add: progress_def)
  apply (drule sym [of "(_, _)"])
  apply (drule parseStatement_steps)
  apply (simp add: progress_def)
  done

declare parseLoop.simps [simp del]

termination parsedStatements
  apply (relation "measure (\<lambda>(lexer, p). remaining p)")
   apply simp
  apply (drule sym [of "(_, _)"])
  apply (drule parseStatement_steps)
  apply (simp add: progress_def)
  done

declare parsedStatements.simps [simp del]

section \<open>Properties\<close>

subsection \<open>The cursor under \<open>match\<close> and \<open>matchAhead\<close>\<close>

text \<open>
  Claim C10. For every token class \<open>c\<close>, \<open>match c read\<close> advances the cursor of the token
  stream exactly when the peeked token is not empty, has class \<open>c\<close>, \<open>read\<close> is true and the
  stream has a next token, and then by one position, changing nothing else; when the class of
  the peeked token differs, \<open>match\<close> returns the empty token and leaves the parser as it was;
  \<open>matchAhead\<close> never changes the parser, so it never moves the cursor.
\<close>

theorem match_cursor:
  "(cursor (snd (match c read p)) \<noteq> cursor p \<longleftrightarrow>
      \<not> empty_tok (peek 0 (m_tokenStream p)) \<and> getTokenClass (peek 0 (m_tokenStream p)) = c
      \<and> read \<and> hasNext (m_tokenStream p))
   \<and> (cursor (snd (match c read p)) \<noteq> cursor p \<longrightarrow>
        cursor (snd (match c read p)) = cursor p + 1 \<and> snd (match c read p) = advance p)
   \<and> (getTokenClass (peek 0 (m_tokenStream p)) \<noteq> c \<longrightarrow> match c read p = (Token_EMPTY, p))
   \<and> snd (matchAhead c n p) = p
   \<and> cursor (snd (matchAhead c n p)) = cursor p"
  by (auto simp: match_def matchAhead_def Let_def cursor_advance)

theorem match_cursor_witness:
  "cursor (snd (match TK_IDENT True (example_parser [example_tok TK_IDENT ''x'' 0 0]))) = 1
   \<and> match TK_NEWLINE True (example_parser [example_tok TK_IDENT ''x'' 0 0])
       = (Token_EMPTY, example_parser [example_tok TK_IDENT ''x'' 0 0])
   \<and> cursor (snd (matchAhead TK_IDENT 0 (example_parser [example_tok TK_IDENT ''x'' 0 0]))) = 0"
  using match_cursor [of TK_IDENT True "example_parser [example_tok TK_IDENT ''x'' 0 0]" 0]
        match_cursor [of TK_NEWLINE True "example_parser [example_tok TK_IDENT ''x'' 0 0]" 0]
  by (simp add: example_parser_def example_tok_def cursor_def peek_def hasNext_def empty_tok_def)

lemma errorList_report:
  "m_errorList (m_compilationUnit (report msg loc str p)) =
     m_errorList (m_compilationUnit p) @
       [\<lparr>getLevel = LEVEL_ERROR, getMessage = msg, getErrorLocation = loc, getText = str\<rparr>]"
  by (simp add: report_def addError_def)

lemma compilationUnit_advance [simp]: "m_compilationUnit (advance p) = m_compilationUnit p"
  by (simp add: advance_def)

lemma astIterator_advance [simp]: "m_astIterator (advance p) = m_astIterator p"
  by (simp add: advance_def)

lemma astIterator_report [simp]: "m_astIterator (report msg loc str p) = m_astIterator p"
  by (simp add: report_def)

lemma boundGlobals_report [simp]:
  "m_boundGlobals (m_compilationUnit (report msg loc str p)) = m_boundGlobals (m_compilationUnit p)"
  by (simp add: report_def)

lemma cursor_report [simp]: "cursor (report msg loc str p) = cursor p"
  by (simp add: cursor_def)

lemma matches_iff:
  "matches c p \<longleftrightarrow> \<not> empty_tok (peek 0 (m_tokenStream p)) \<and> getTokenClass (peek 0 (m_tokenStream p)) = c"
  by (auto simp: matches_def match_def Let_def Token_EMPTY_def empty_tok_def)

lemma advance_report: "advance (report msg loc str p) = report msg loc str (advance p)"
  by (simp add: advance_def report_def)

subsection \<open>An unrecognized leading token\<close>

lemma parseTerm_last_branch:
  assumes "tok = peek 0 (m_tokenStream p)"
    and "\<not> empty_tok tok"
    and "getTokenClass tok \<notin> {TK_IDENT, TK_OPEN_PARENTH, TK_OPEN_BRACKET, TK_INTEGER, TK_FLOAT,
           TK_STRING, TK_INTERPOLATION, TK_REG, TK_LOCAL}"
  shows "parseTerm lexer p =
      (None, advance (if getTokenClass tok = TK_NEWLINE
                      then report Msg_unexpected_eol (getLocation tok) (ErrText []) p
                      else report Msg_unexpected_token (getLocation tok) (ErrText (getValue tok)) p))"
proof -
  have hn: "hasNext (m_tokenStream p)"
    using assms(1,2) by (simp add: peek_nonempty_hasNext)
  have nm: "\<not> matches TK_IDENT p" "\<not> matches TK_OPEN_PARENTH p" "\<not> matches TK_OPEN_BRACKET p"
    "\<not> matches TK_INTEGER p" "\<not> matches TK_FLOAT p" "\<not> matches TK_STRING p"
    "\<not> matches TK_INTERPOLATION p" "\<not> matches TK_REG p" "\<not> matches TK_LOCAL p"
    using assms(1,3) by (auto simp: matches_iff)
  show ?thesis
    using assms(1,2) hn nm by (simp add: parseTerm_def Let_def)
qed

text \<open>
  Claim C6 as it is written fails. No term begins with an open parenthesis, an open
  bracket or a float, yet on a stream that holds one such token \<open>parseTerm\<close> returns no
  expression, appends no diagnostic and leaves the token where it is: the chain of
  \<open>match\<close> tests names these three classes in branches whose parsers are commented out. On
  the tokens of \<^verbatim>\<open>cmp (\<close> the parser then ends without any diagnostic.
\<close>

theorem parseTerm_reserved_counterexample:
  "fst (parseTerm (example_lexer []) (example_parser [example_tok TK_OPEN_PARENTH ''('' 1 0])) = None
   \<and> m_errorList (m_compilationUnit (snd (parseTerm (example_lexer []) (example_parser [example_tok TK_OPEN_PARENTH ''('' 1 0])))) = []
   \<and> cursor (snd (parseTerm (example_lexer []) (example_parser [example_tok TK_OPEN_PARENTH ''('' 1 0]))) = 0
   \<and> fst (parseTerm (example_lexer []) (example_parser [example_tok TK_OPEN_BRACKET ''['' 1 0])) = None
   \<and> m_errorList (m_compilationUnit (snd (parseTerm (example_lexer []) (example_parser [example_tok TK_OPEN_BRACKET ''['' 1 0])))) = []
   \<and> cursor (snd (parseTerm (example_lexer []) (example_parser [example_tok TK_OPEN_BRACKET ''['' 1 0]))) = 0
   \<and> fst (parseTerm (example_lexer []) (example_parser [example_tok TK_FLOAT ''1.5'' 1 0])) = None
   \<and> m_errorList (m_compilationUnit (snd (parseTerm (example_lexer []) (example_parser [example_tok TK_FLOAT ''1.5'' 1 0])))) = []
   \<and> cursor (snd (parseTerm (example_lexer []) (example_parser [example_tok TK_FLOAT ''1.5'' 1 0]))) = 0
   \<and> m_errorList (m_compilationUnit (parse (example_lexer []) isHoisted_spec
        (example_parser [example_tok TK_IDENT ''cmp'' 1 0, example_tok TK_OPEN_PARENTH ''('' 1 4]))) = []
   \<and> m_astIterator (parse (example_lexer []) isHoisted_spec
        (example_parser [example_tok TK_IDENT ''cmp'' 1 0, example_tok TK_OPEN_PARENTH ''('' 1 4])) = []"
  by code_simp

text \<open>
  Claim C6, amended. When the token that \<open>parseTerm\<close> peeks is not empty and its class is
  none of those that the chain of \<open>match\<close> tests names (identifier, integer, string,
  interpolation, register, local, and the reserved open parenthesis, open bracket and
  float), \<open>parseTerm\<close> appends exactly one diagnostic, unexpected end of line for a newline
  and else unexpected token with the text of the token, discards exactly that one token
  and returns no expression.
\<close>

theorem parseTerm_unrecognized:
  assumes "tok = peek 0 (m_tokenStream p)"
    and "\<not> empty_tok tok"
    and "getTokenClass tok \<notin> {TK_IDENT, TK_OPEN_PARENTH, TK_OPEN_BRACKET, TK_INTEGER, TK_FLOAT,
           TK_STRING, TK_INTERPOLATION, TK_REG, TK_LOCAL}"
  shows "fst (parseTerm lexer p) = None
    \<and> m_errorList (m_compilationUnit (snd (parseTerm lexer p))) =
        m_errorList (m_compilationUnit p) @
          [if getTokenClass tok = TK_NEWLINE
           then \<lparr>getLevel = LEVEL_ERROR, getMessage = Msg_unexpected_eol,
                 getErrorLocation = getLocation tok, getText = ErrText []\<rparr>
           else \<lparr>getLevel = LEVEL_ERROR, getMessage = Msg_unexpected_token,
                 getErrorLocation = getLocation tok, getText = ErrText (getValue tok)\<rparr>]
    \<and> cursor (snd (parseTerm lexer p)) = cursor p + 1
    \<and> m_tokens (m_tokenStream (snd (parseTerm lexer p))) = m_tokens (m_tokenStream p)
    \<and> m_astIterator (snd (parseTerm lexer p)) = m_astIterator p
    \<and> m_boundGlobals (m_compilationUnit (snd (parseTerm lexer p))) = m_boundGlobals (m_compilationUnit p)"
proof -
  have hn: "hasNext (m_tokenStream p)"
    using assms(1,2) by (simp add: peek_nonempty_hasNext)
  have nm: "\<not> matches TK_IDENT p" "\<not> matches TK_OPEN_PARENTH p" "\<not> matches TK_OPEN_BRACKET p"
    "\<not> matches TK_INTEGER p" "\<not> matches TK_FLOAT p" "\<not> matches TK_STRING p"
    "\<not> matches TK_INTERPOLATION p" "\<not> matches TK_REG p" "\<not> matches TK_LOCAL p"
    using assms(1,3) by (auto simp: matches_iff)
  have pt: "parseTerm lexer p =
      (None, advance (if getTokenClass tok = TK_NEWLINE
                      then report Msg_unexpected_eol (getLocation tok) (ErrText []) p
                      else report Msg_unexpected_token (getLocation tok) (ErrText (getValue tok)) p))"
    using assms(1,2) hn nm by (simp add: parseTerm_def Let_def)
  show ?thesis
    unfolding pt using hn
    by (simp add: errorList_report cursor_advance)
qed

theorem parseTerm_unrecognized_witness:
  "fst (parseTerm (example_lexer []) (example_parser [example_tok TK_CLOSE_BRACE ''}'' 1 0])) = None
   \<and> m_errorList (m_compilationUnit (snd (parseTerm (example_lexer [])
         (example_parser [example_tok TK_CLOSE_BRACE ''}'' 1 0])))) =
       [\<lparr>getLevel = LEVEL_ERROR, getMessage = Msg_unexpected_token,
         getErrorLocation = example_loc 1 0, getText = ErrText ''}''\<rparr>]
   \<and> cursor (snd (parseTerm (example_lexer []) (example_parser [example_tok TK_CLOSE_BRACE ''}'' 1 0]))) = 1"
  using parseTerm_unrecognized [of "example_tok TK_CLOSE_BRACE ''}'' 1 0"
          "example_parser [example_tok TK_CLOSE_BRACE ''}'' 1 0]" "example_lexer []"]
  by (simp add: example_parser_def example_tok_def peek_def empty_tok_def cursor_def
        CompilationUnit_new_def)

text \<open>
  The three classes that the chain names without parsing them: no expression, no
  diagnostic, and the token stays where it is.
\<close>

lemma parseTerm_reserved:
  assumes "tok = peek 0 (m_tokenStream p)"
    and "getTokenClass tok \<in> {TK_OPEN_PARENTH, TK_OPEN_BRACKET, TK_FLOAT}"
  shows "parseTerm lexer p = (None, p)"
  using assms by (auto simp: parseTerm_def Let_def matches_iff empty_tok_def)

subsection \<open>A command that is no mnemonic\<close>

lemma expect_matching:
  assumes "tok = peek 0 (m_tokenStream p)" and "getTokenClass tok = c" and "c \<noteq> TK_EMPTY"
  shows "expect c True p = (tok, advance p)" and "hasNext (m_tokenStream p)"
proof -
  have ne: "\<not> empty_tok tok" using assms(2,3) by (simp add: empty_tok_def)
  then show hn: "hasNext (m_tokenStream p)" using assms(1) by (simp add: peek_nonempty_hasNext)
  show "expect c True p = (tok, advance p)"
    using assms(1,2) ne hn by (simp add: expect_def match_def Let_def)
qed

lemma parseIdentifier_matching:
  assumes "tok = peek 0 (m_tokenStream p)" and "getTokenClass tok = TK_IDENT"
  shows "parseIdentifier p = (Some (AstIdentifier (getValue tok) (getLocation tok)), advance p)"
  using expect_matching(1) [OF assms(1,2)] assms(2)
  by (simp add: parseIdentifier_def empty_tok_def)

text \<open>
  Claim C7. For every identifier token whose text is none of \<open>jmp\<close>, \<open>je\<close>, \<open>jne\<close>, \<open>jg\<close>,
  \<open>jge\<close> and \<open>cmp\<close>, \<open>parseCommand\<close> consumes the token, the single \<open>rewind\<close> puts the
  parser back where it was, and the token is parsed again by \<open>parseIdentifier\<close>: the result
  is the identifier reference of the token, the cursor is one token further, and no
  diagnostic is appended.
\<close>

theorem parseCommand_plain_identifier:
  assumes "tok = peek 0 (m_tokenStream p)"
    and "getTokenClass tok = TK_IDENT"
    and "getValue tok \<notin> {''jmp'', ''je'', ''jne'', ''jg'', ''jge'', ''cmp''}"
  shows "parseCommand lexer p =
           (Some (AstExpr (AstIdentifier (getValue tok) (getLocation tok))), advance p)
    \<and> expect TK_IDENT True p = (tok, advance p)
    \<and> (advance p)\<lparr>m_tokenStream := rewind (m_tokenStream (advance p))\<rparr> = p
    \<and> parseIdentifier p = (Some (AstIdentifier (getValue tok) (getLocation tok)), advance p)
    \<and> cursor (snd (parseCommand lexer p)) = cursor p + 1
    \<and> m_errorList (m_compilationUnit (snd (parseCommand lexer p))) = m_errorList (m_compilationUnit p)"
proof -
  have e: "expect TK_IDENT True p = (tok, advance p)" and hn: "hasNext (m_tokenStream p)"
    using expect_matching [OF assms(1,2)] by simp_all
  have ne: "\<not> empty_tok tok" using assms(2) by (simp add: empty_tok_def)
  have j: "jumpModeStrings (getValue tok) = None"
    using assms(3) by (simp add: jumpModeStrings_def)
  have c: "getValue tok \<noteq> ''cmp''" using assms(3) by simp
  have rw: "(advance p)\<lparr>m_tokenStream := rewind (m_tokenStream (advance p))\<rparr> = p"
    using hn by (rule rewind_advance)
  have pi: "parseIdentifier p = (Some (AstIdentifier (getValue tok) (getLocation tok)), advance p)"
    using assms(1,2) by (rule parseIdentifier_matching)
  have pc: "parseCommand lexer p =
           (Some (AstExpr (AstIdentifier (getValue tok) (getLocation tok))), advance p)"
    unfolding parseCommand_def using e ne j c rw pi by simp
  show ?thesis using pc e rw pi hn by (simp add: cursor_advance)
qed

theorem parseCommand_plain_identifier_witness:
  "parseCommand (example_lexer []) (example_parser [example_tok TK_IDENT ''mov'' 1 0]) =
     (Some (AstExpr (AstIdentifier ''mov'' (example_loc 1 0))),
      advance (example_parser [example_tok TK_IDENT ''mov'' 1 0]))
   \<and> m_errorList (m_compilationUnit (snd (parseCommand (example_lexer [])
        (example_parser [example_tok TK_IDENT ''mov'' 1 0])))) = []"
  using parseCommand_plain_identifier [of "example_tok TK_IDENT ''mov'' 1 0"
          "example_parser [example_tok TK_IDENT ''mov'' 1 0]" "example_lexer []"]
  by (simp add: example_parser_def example_tok_def peek_def CompilationUnit_new_def)

subsection \<open>Interpolation\<close>

lemma addErrors_Nil [simp]: "addErrors [] p = p"
  by (simp add: addErrors_def)

lemma report_addErrors:
  "report msg loc str (addErrors es p) =
     addErrors (es @ [\<lparr>getLevel = LEVEL_ERROR, getMessage = msg, getErrorLocation = loc, getText = str\<rparr>]) p"
  by (simp add: report_def addErrors_def addError_def)

lemma report_as_addErrors:
  "report msg loc str p =
     addErrors [\<lparr>getLevel = LEVEL_ERROR, getMessage = msg, getErrorLocation = loc, getText = str\<rparr>] p"
  using report_addErrors [of msg loc str "[]" p] by simp

lemma addErrors_addErrors: "addErrors es (addErrors ds p) = addErrors (ds @ es) p"
  by (simp add: addErrors_def)

lemma cursor_addErrors [simp]: "cursor (addErrors es p) = cursor p"
  by (simp add: addErrors_def cursor_def)

lemma boundGlobals_addErrors [simp]:
  "m_boundGlobals (m_compilationUnit (addErrors es p)) = m_boundGlobals (m_compilationUnit p)"
  by (simp add: addErrors_def)


lemma miniParser_declared:
  assumes "\<forall>t \<in> set pre. \<not> declared p t"
    and "getTokenClass t = TK_IDENT"
    and "bg_get (m_boundGlobals (m_compilationUnit p)) (getValue t) = Some e"
  shows "miniParser (pre @ t # post) p = (Some e, addErrors (map interpolationError pre) p)"
  using assms
proof (induction pre arbitrary: p)
  case Nil
  then show ?case by simp
next
  case (Cons u pre)
  let ?q = "addErrors [interpolationError u] p"
  have step: "miniParser ((u # pre) @ t # post) p = miniParser (pre @ t # post) ?q"
    using Cons.prems(1)
    by (auto simp: declared_def interpolationError_def report_as_addErrors split: option.splits)
  have "miniParser (pre @ t # post) ?q = (Some e, addErrors (map interpolationError pre) ?q)"
    using Cons.prems by (intro Cons.IH) (simp_all add: declared_def)
  with step show ?case by (simp add: addErrors_addErrors)
qed



subsection \<open>Registers and locals\<close>

declare dec_digits.simps [simp del]

lemma digits_value_append:
  "digits_value acc (xs @ ys) = digits_value (digits_value acc xs) ys"
  by (induction xs arbitrary: acc) simp_all

lemma of_char_digit: "k < 10 \<Longrightarrow> (of_char (char_of (48 + k :: nat)) :: nat) = 48 + k"
  by simp

lemma isdigit_digit: "k < 10 \<Longrightarrow> isdigit_c (char_of (48 + k :: nat))"
  by (simp add: isdigit_c_def)

lemma dec_digits_all: "\<forall>c \<in> set (dec_digits n). isdigit_c c"
proof (induction n rule: dec_digits.induct)
  case (1 n)
  show ?case
  proof (cases "n < 10")
    case True
    then show ?thesis by (subst dec_digits.simps) (simp add: isdigit_digit)
  next
    case False
    have "n mod 10 < 10" by simp
    with False "1.IH" show ?thesis
      by (subst dec_digits.simps) (auto simp: isdigit_digit simp del: of_nat_add)
  qed
qed

lemma dec_digits_nonempty: "dec_digits n \<noteq> []"
  by (subst dec_digits.simps) simp

lemma dec_digits_value: "digits_value 0 (dec_digits n) = int n"
proof (induction n rule: dec_digits.induct)
  case (1 n)
  show ?case
  proof (cases "n < 10")
    case True
    then show ?thesis by (subst dec_digits.simps) simp
  next
    case False
    have m: "n mod 10 < 10" by simp
    have "digits_value 0 (dec_digits n) =
            digits_value 0 (dec_digits (n div 10)) * 10 + (int (of_char (char_of (48 + n mod 10))) - 48)"
      using False by (subst dec_digits.simps) (simp add: digits_value_append)
    also have "\<dots> = int (n div 10) * 10 + int (n mod 10)"
      using "1.IH" [OF False] of_char_digit [OF m] by simp
    also have "\<dots> = int n" by (simp add: zdiv_int zmod_int)
    finally show ?thesis .
  qed
qed

lemma isdigit_not_space: "isdigit_c c \<Longrightarrow> \<not> isspace_c c \<and> c \<noteq> CHR ''-'' \<and> c \<noteq> CHR ''+''"
  by (auto simp: isdigit_c_def isspace_c_def)

lemma istream_read_digits:
  assumes "ds \<noteq> []" and "\<forall>c \<in> set ds. isdigit_c c"
  shows "istream_read lo hi ds =
           Determinate (let v = digits_value 0 ds in if v < lo then lo else if hi < v then hi else v)"
    and "istream_read lo hi (CHR ''-'' # ds) =
           Determinate (let v = - digits_value 0 ds in if v < lo then lo else if hi < v then hi else v)"
proof -
  obtain d rest where ds: "ds = d # rest" using assms(1) by (cases ds) auto
  have d: "isdigit_c d" using assms(2) ds by simp
  have tw: "takeWhile isdigit_c ds = ds" using assms(2) by (simp add: takeWhile_eq_all_conv)
  have dw: "dropWhile isspace_c ds = ds"
    using isdigit_not_space [OF d] ds by simp
  show "istream_read lo hi ds =
           Determinate (let v = digits_value 0 ds in if v < lo then lo else if hi < v then hi else v)"
    unfolding istream_read_def dw using tw assms(1) isdigit_not_space [OF d] ds
    by (simp add: Let_def)
  have ms: "\<not> isspace_c CHR ''-''" by (simp add: isspace_c_def)
  show "istream_read lo hi (CHR ''-'' # ds) =
           Determinate (let v = - digits_value 0 ds in if v < lo then lo else if hi < v then hi else v)"
    unfolding istream_read_def using ms assms
    by (simp add: Let_def takeWhile_eq_all_conv [THEN iffD2])
qed

lemma istream_read_blank: "\<forall>c \<in> set s. isspace_c c \<Longrightarrow> istream_read lo hi s = Indeterminate"
proof -
  assume "\<forall>c \<in> set s. isspace_c c"
  then have d: "dropWhile isspace_c s = []" by simp
  show ?thesis unfolding istream_read_def d by simp
qed

lemma read_int_decimal: "INT_MIN \<le> n \<Longrightarrow> n \<le> INT_MAX \<Longrightarrow> read_int (decimal n) = Determinate n"
  unfolding read_int_def decimal_def
  using istream_read_digits [OF dec_digits_nonempty dec_digits_all]
  by (auto simp: dec_digits_value Let_def)

text \<open>
  Claim C8. For every index \<open>n\<close> in the range of the C++ type \<open>int\<close>, a register token and a
  local-variable token whose text is the numeral of \<open>n\<close> are parsed, by \<open>parseRegister\<close> and
  \<open>parseLocal\<close> (to which \<open>parseTerm\<close> hands them), to data-location nodes built with slot
  \<open>n\<close> and with the storage classes register and local: their object locations have equal
  slot numbers, both \<open>n\<close>, and storage classes that differ, also as numbers.
\<close>

theorem register_local_same_slot:
  assumes "INT_MIN \<le> n" and "n \<le> INT_MAX"
    and "r = peek 0 (m_tokenStream p)" and "getTokenClass r = TK_REG" and "getValue r = decimal n"
    and "l = peek 0 (m_tokenStream q)" and "getTokenClass l = TK_LOCAL" and "getValue l = decimal n"
  shows "parseRegister p = (Some (AstDataLocation (Determinate n) RegisterDataStore (getLocation r)), advance p)
    \<and> parseLocal q = (Some (AstDataLocation (Determinate n) LocalDataStore (getLocation l)), advance q)
    \<and> parseTerm lexer p = parseRegister p
    \<and> parseTerm lexer q = parseLocal q
    \<and> m_location (getObjLoc (the (fst (parseRegister p)))) = Determinate n
    \<and> m_location (getObjLoc (the (fst (parseLocal q)))) = Determinate n
    \<and> m_dataStoreLocation (getObjLoc (the (fst (parseRegister p)))) = RegisterDataStore
    \<and> m_dataStoreLocation (getObjLoc (the (fst (parseLocal q)))) = LocalDataStore
    \<and> m_dataStoreLocation (getObjLoc (the (fst (parseRegister p))))
        \<noteq> m_dataStoreLocation (getObjLoc (the (fst (parseLocal q))))
    \<and> DataStoreLocation_value RegisterDataStore \<noteq> DataStoreLocation_value LocalDataStore"
proof -
  have n: "read_int (decimal n) = Determinate n" using assms(1,2) by (rule read_int_decimal)
  have er: "expect TK_REG True p = (r, advance p)"
    using expect_matching(1) [OF assms(3,4)] by simp
  have el: "expect TK_LOCAL True q = (l, advance q)"
    using expect_matching(1) [OF assms(6,7)] by simp
  have pr: "parseRegister p = (Some (AstDataLocation (Determinate n) RegisterDataStore (getLocation r)), advance p)"
    using er assms(4,5) n by (simp add: parseRegister_def empty_tok_def)
  have pl: "parseLocal q = (Some (AstDataLocation (Determinate n) LocalDataStore (getLocation l)), advance q)"
    using el assms(7,8) n by (simp add: parseLocal_def empty_tok_def)
  have tr: "parseTerm lexer p = parseRegister p"
    using assms(3,4) by (simp add: parseTerm_def Let_def matches_iff empty_tok_def)
  have tl: "parseTerm lexer q = parseLocal q"
    using assms(6,7) by (simp add: parseTerm_def Let_def matches_iff empty_tok_def)
  show ?thesis using pr pl tr tl by simp
qed

theorem register_local_same_slot_witness:
  "parseRegister (example_parser [example_tok TK_REG ''12'' 1 0])
     = (Some (AstDataLocation (Determinate 12) RegisterDataStore (example_loc 1 0)),
        advance (example_parser [example_tok TK_REG ''12'' 1 0]))
   \<and> parseLocal (example_parser [example_tok TK_LOCAL ''12'' 2 0])
     = (Some (AstDataLocation (Determinate 12) LocalDataStore (example_loc 2 0)),
        advance (example_parser [example_tok TK_LOCAL ''12'' 2 0]))"
proof -
  have d: "decimal 12 = ''12''"
    by code_simp
  have b: "INT_MIN \<le> 12" "12 \<le> INT_MAX"
    by (simp_all add: INT_MIN_def INT_MAX_def)
  show ?thesis
    using register_local_same_slot [OF b, of "example_tok TK_REG ''12'' 1 0"
        "example_parser [example_tok TK_REG ''12'' 1 0]" "example_tok TK_LOCAL ''12'' 2 0"
        "example_parser [example_tok TK_LOCAL ''12'' 2 0]" "example_lexer []"] d
    by (simp add: example_parser_def example_tok_def peek_def)
qed

subsection \<open>What every parsing step keeps\<close>

lemma keeps_refl [simp]: "keeps p p"
  by (simp add: keeps_def)

lemma keeps_trans: "keeps p q \<Longrightarrow> keeps q r \<Longrightarrow> keeps p r"
  by (auto simp: keeps_def)

lemma keeps_report [simp]: "keeps p (report msg loc str p)"
  by (simp add: keeps_def errorList_report)

lemma keeps_advance [simp]: "keeps p (advance p)"
  by (simp add: keeps_def)

lemma keeps_stream: "keeps p q \<Longrightarrow> keeps p (q\<lparr>m_tokenStream := ts\<rparr>)"
  by (simp add: keeps_def)

lemma keeps_match: "keeps p (snd (match c r p))"
  by (simp add: match_def Let_def)

lemma keeps_expect: "keeps p (snd (expect c r p))"
  by (cases "match c r p")
     (auto simp: expect_def split: if_splits dest: match_empty_same
        intro: keeps_trans [OF keeps_match [of p c r, simplified]])

lemma keeps_expect': "expect c r p = (t, p') \<Longrightarrow> keeps p p'"
  using keeps_expect [of p c r] by simp

lemma keeps_skipStatementTerminators: "keeps p (skipStatementTerminators p)"
proof (induction p rule: skipStatementTerminators.induct)
  case (1 p)
  obtain t p1 where m: "match TK_NEWLINE True p = (t, p1)"
    by (cases "match TK_NEWLINE True p")
  have nb: "keeps p p1"
    using keeps_match [of p TK_NEWLINE True] m by simp
  show ?case
  proof (cases "empty_tok t")
    case True
    with m nb show ?thesis by (subst skipStatementTerminators.simps) simp
  next
    case False
    with "1.IH" [OF m [symmetric]] have "keeps p1 (skipStatementTerminators p1)" by simp
    with nb have "keeps p (skipStatementTerminators p1)" by (rule keeps_trans)
    with m False show ?thesis by (subst skipStatementTerminators.simps) simp
  qed
qed

lemma keeps_skipToEndOfStmt: "keeps p (skipToEndOfStmt p)"
proof (induction p rule: skipToEndOfStmt.induct)
  case (1 p)
  let ?p1 = "advance p"
  obtain t p2 where m: "match TK_NEWLINE True ?p1 = (t, p2)"
    by (cases "match TK_NEWLINE True ?p1")
  have nb: "keeps p p2"
    using keeps_trans [OF keeps_advance keeps_match [of ?p1 TK_NEWLINE True]] m by simp
  show ?case
  proof (cases "hasNext (m_tokenStream ?p1) \<and> empty_tok t")
    case True
    with "1.IH" [OF refl _ m [symmetric]] have "keeps p2 (skipToEndOfStmt p2)" by simp
    with nb have "keeps p (skipToEndOfStmt p2)" by (rule keeps_trans)
    with m True show ?thesis by (subst skipToEndOfStmt.simps) (simp add: Let_def)
  next
    case False
    with m nb show ?thesis by (subst skipToEndOfStmt.simps) (auto simp: Let_def)
  qed
qed

lemma keeps_expectEndOfStmt: "keeps p (snd (expectEndOfStmt p))"
proof -
  obtain t p1 where m: "match TK_NEWLINE True p = (t, p1)"
    by (cases "match TK_NEWLINE True p")
  have nb: "keeps p p1"
    using keeps_match [of p TK_NEWLINE True] m by simp
  have "keeps p1 (skipToEndOfStmt (report Msg_expected_end_of_statement (currentLocation p) (ErrText []) p1))"
    by (rule keeps_trans [OF keeps_report keeps_skipToEndOfStmt])
  with nb have "keeps p (skipToEndOfStmt (report Msg_expected_end_of_statement (currentLocation p) (ErrText []) p1))"
    by (rule keeps_trans)
  with m nb show ?thesis by (simp add: expectEndOfStmt_def Let_def)
qed

lemma keeps_parseIdentifier: "parseIdentifier p = (r, p') \<Longrightarrow> keeps p p'"
  by (auto simp: parseIdentifier_def split: prod.splits if_splits dest: keeps_expect')

lemma keeps_parseIntegerLiteral: "parseIntegerLiteral p = (r, p') \<Longrightarrow> keeps p p'"
  by (auto simp: parseIntegerLiteral_def split: prod.splits if_splits dest: keeps_expect')

lemma keeps_parseStringLiteral: "parseStringLiteral p = (r, p') \<Longrightarrow> keeps p p'"
  by (auto simp: parseStringLiteral_def split: prod.splits if_splits dest: keeps_expect')

lemma keeps_parseRegister: "parseRegister p = (r, p') \<Longrightarrow> keeps p p'"
  by (auto simp: parseRegister_def split: prod.splits if_splits dest: keeps_expect')

lemma keeps_parseLocal: "parseLocal p = (r, p') \<Longrightarrow> keeps p p'"
  by (auto simp: parseLocal_def split: prod.splits if_splits dest: keeps_expect')

lemma keeps_miniParser: "keeps p (snd (miniParser toks p))"
proof (induction toks p rule: miniParser.induct)
  case (1 p)
  then show ?case by simp
next
  case (2 token rest p)
  then show ?case
    by (auto split: option.splits intro: keeps_trans [OF keeps_report])
qed

lemma keeps_parseInterpolation: "parseInterpolation lexer p = (r, p') \<Longrightarrow> keeps p p'"
proof -
  assume a: "parseInterpolation lexer p = (r, p')"
  obtain token p1 where e: "expect TK_INTERPOLATION True p = (token, p1)"
    by (cases "expect TK_INTERPOLATION True p")
  have k: "keeps p p1" using e by (rule keeps_expect')
  show ?thesis
  proof (cases "empty_tok token")
    case True
    with a e k show ?thesis by (simp add: parseInterpolation_def)
  next
    case False
    with a e have "p' = snd (miniParser (fst (lexer (getFileName (getLocation token)) (getValue token))) p1)"
      by (simp add: parseInterpolation_def)
    with k keeps_miniParser show ?thesis by (blast intro: keeps_trans)
  qed
qed

lemma keeps_parseTerm: "parseTerm lexer p = (r, p') \<Longrightarrow> keeps p p'"
  unfolding parseTerm_def Let_def
  by (auto split: if_splits
        dest: keeps_parseIdentifier keeps_parseIntegerLiteral keeps_parseStringLiteral
          keeps_parseInterpolation keeps_parseRegister keeps_parseLocal
        intro: keeps_trans [OF keeps_report keeps_advance])

lemma keeps_parseExpression: "parseExpression lexer p = (r, p') \<Longrightarrow> keeps p p'"
  by (auto simp: parseExpression_def split: prod.splits option.splits dest: keeps_parseTerm)

lemma keeps_directiveArguments: "keeps p (snd (directiveArguments lexer p))"
proof (induction lexer p rule: directiveArguments.induct)
  case (1 lexer p)
  obtain r p1 where t: "parseTerm lexer p = (r, p1)"
    by (cases "parseTerm lexer p")
  have nb: "keeps p p1" using keeps_parseTerm [OF t] by simp
  show ?case
  proof (cases "hasNext (m_tokenStream p) \<and> \<not> matches TK_NEWLINE p \<and> \<not> matches TK_OPEN_BRACE p")
    case False
    then show ?thesis by (subst directiveArguments.simps) auto
  next
    case True
    show ?thesis
    proof (cases r)
      case None
      with t True nb show ?thesis by (subst directiveArguments.simps) simp
    next
      case (Some e)
      with "1.IH" [OF True t [symmetric]] have "keeps p1 (snd (directiveArguments lexer p1))" by simp
      with nb have "keeps p (snd (directiveArguments lexer p1))" by (rule keeps_trans)
      with t True Some show ?thesis
        by (subst directiveArguments.simps) (auto split: prod.splits)
    qed
  qed
qed

lemma keeps_directiveBody: "keeps p (snd (directiveBody n body p))"
proof (induction n body p rule: directiveBody.induct)
  case (1 n body p)
  show ?case
  proof (cases "hasNext (m_tokenStream p)")
    case False
    then show ?thesis by (subst directiveBody.simps) simp
  next
    case True
    let ?n1 = "if matches TK_OPEN_BRACE p then n + 1
               else if matches TK_CLOSE_BRACE p then n - 1 else n"
    show ?thesis
    proof (cases "\<not> matches TK_OPEN_BRACE p \<and> matches TK_CLOSE_BRACE p \<and> ?n1 = 0")
      case stop: True
      with True show ?thesis by (subst directiveBody.simps) (auto simp: Let_def split: if_splits)
    next
      case go: False
      from "1.IH" [OF True refl go]
      have "keeps (advance p)
              (snd (directiveBody ?n1 (body @ getRepr (peek 0 (m_tokenStream p)) @ '' '') (advance p)))" .
      then have "keeps p
              (snd (directiveBody ?n1 (body @ getRepr (peek 0 (m_tokenStream p)) @ '' '') (advance p)))"
        by (rule keeps_trans [OF keeps_advance])
      with True go show ?thesis by (subst directiveBody.simps) (simp add: Let_def)
    qed
  qed
qed

lemma parseDirective_result:
  "parseDirective lexer p = (r, p') \<Longrightarrow>
     keeps p p' \<and> (\<forall>stmt. r = Some stmt \<longrightarrow> (\<exists>name args body loc. stmt = AstDirective name args body loc))"
proof -
  assume a: "parseDirective lexer p = (r, p')"
  obtain token p1 where e: "expect TK_DIRECTIVE True p = (token, p1)"
    by (cases "expect TK_DIRECTIVE True p")
  have k1: "keeps p p1" using e by (rule keeps_expect')
  show ?thesis
  proof (cases "empty_tok token")
    case True
    with a e k1 show ?thesis by (simp add: parseDirective_def)
  next
    case False
    obtain arguments p2 where d: "directiveArguments lexer p1 = (arguments, p2)"
      by (cases "directiveArguments lexer p1")
    obtain brace p3 where m: "match TK_OPEN_BRACE True p2 = (brace, p3)"
      by (cases "match TK_OPEN_BRACE True p2")
    obtain body p4 where b: "(if \<not> empty_tok brace then directiveBody 1 [] p3 else ([], p3)) = (body, p4)"
      by (cases "if \<not> empty_tok brace then directiveBody 1 [] p3 else ([], p3)")
    have "keeps p1 p2" using keeps_directiveArguments [of p1 lexer] d by simp
    moreover have "keeps p2 p3" using keeps_match [of p2 TK_OPEN_BRACE True] m by simp
    moreover have "keeps p3 p4" using keeps_directiveBody [of p3 1 "[]"] b by (auto split: if_splits)
    ultimately have "keeps p p4" using k1 by (blast intro: keeps_trans)
    moreover have "p' = p4" "r = Some (AstDirective (getValue token) arguments body (getLocation token))"
      using a e False d m b by (simp_all add: parseDirective_def)
    ultimately show ?thesis by simp
  qed
qed

lemma bg_get_set: "bg_get (bg_set name v g) name' = (if name' = name then Some v else bg_get g name')"
  by (cases g) simp

lemma parseLabel_result:
  "parseLabel p = (r, p') \<Longrightarrow>
     keeps p p' \<and>
     (\<forall>stmt. r = Some stmt \<longrightarrow>
        (\<exists>name loc. stmt = AstLabelDecl name (AstLabel name loc) loc
           \<and> bg_get (m_boundGlobals (m_compilationUnit p')) name = Some (AstLabel name loc)))"
proof -
  assume a: "parseLabel p = (r, p')"
  obtain token p1 where e: "expect TK_LABEL True p = (token, p1)"
    by (cases "expect TK_LABEL True p")
  have k1: "keeps p p1" using e by (rule keeps_expect')
  show ?thesis
  proof (cases "empty_tok token")
    case True
    with a e k1 show ?thesis by (simp add: parseLabel_def)
  next
    case False
    let ?lbl = "AstLabel (getValue token) (getLocation token)"
    let ?p2 = "p1\<lparr>m_compilationUnit := (m_compilationUnit p1)
                 \<lparr>m_boundGlobals := bg_set (getValue token) ?lbl (m_boundGlobals (m_compilationUnit p1))\<rparr>\<rparr>"
    have r: "r = Some (AstLabelDecl (getValue token) ?lbl (getLocation token))" and p': "p' = ?p2"
      using a e False by (simp_all add: parseLabel_def Let_def)
    have "keeps p1 ?p2"
      by (auto simp: keeps_def labelBound_def bg_get_set)
    with k1 have "keeps p ?p2" by (rule keeps_trans)
    then show ?thesis unfolding r p' by (simp add: bg_get_set)
  qed
qed

lemma parseCommand_result:
  "parseCommand lexer p = (r, p') \<Longrightarrow>
     keeps p p' \<and> (\<forall>stmt. r = Some stmt \<longrightarrow> notLabelDecl stmt)"
proof -
  assume a: "parseCommand lexer p = (r, p')"
  obtain token p1 where e: "expect TK_IDENT True p = (token, p1)"
    by (cases "expect TK_IDENT True p")
  have k1: "keeps p p1" using e by (rule keeps_expect')
  show ?thesis
  proof (cases "empty_tok token")
    case True
    from k1 have "keeps p (advance p1)" by (rule keeps_trans) simp
    with a e True show ?thesis by (simp add: parseCommand_def)
  next
    case False
    show ?thesis
    proof (cases "jumpModeStrings (getValue token)")
      case (Some mode)
      with a e False k1 show ?thesis
        by (auto simp: parseCommand_def notLabelDecl_def split: prod.splits option.splits
              dest!: keeps_parseExpression intro: keeps_trans)
    next
      case None
      show ?thesis
      proof (cases "getValue token = ''cmp''")
        case True
        with a e False k1 None show ?thesis
          by (auto simp: parseCommand_def notLabelDecl_def split: prod.splits option.splits
                dest!: keeps_parseExpression intro: keeps_trans)
      next
        case notcmp: False
        have k2: "keeps p (p1\<lparr>m_tokenStream := rewind (m_tokenStream p1)\<rparr>)"
          using k1 by (rule keeps_stream)
        with a e False None notcmp show ?thesis
          by (auto simp: parseCommand_def notLabelDecl_def split: prod.splits option.splits
                dest!: keeps_parseIdentifier intro: keeps_trans)
      qed
    qed
  qed
qed

lemma declaresBound_keeps: "declaresBound stmt p \<Longrightarrow> keeps p p' \<Longrightarrow> declaresBound stmt p'"
  by (auto simp: declaresBound_def keeps_def split: AstStatement.splits)

lemma notLabelDecl_declaresBound: "notLabelDecl stmt \<Longrightarrow> declaresBound stmt p"
  by (auto simp: declaresBound_def notLabelDecl_def split: AstStatement.splits)

lemma parseStatement_result:
  "parseStatement lexer p = (r, p') \<Longrightarrow>
     keeps p p' \<and> (\<forall>stmt. r = Some stmt \<longrightarrow> declaresBound stmt p')"
proof -
  assume a: "parseStatement lexer p = (r, p')"
  let ?p1 = "skipStatementTerminators p"
  have k1: "keeps p ?p1" by (rule keeps_skipStatementTerminators)
  show ?thesis
  proof (cases "hasNext (m_tokenStream ?p1)")
    case False
    with a k1 show ?thesis by (auto simp: parseStatement_def Let_def)
  next
    case True
    obtain res p2 where d:
      "(if matches TK_DIRECTIVE ?p1 then parseDirective lexer ?p1
        else if matches TK_LABEL ?p1 then parseLabel ?p1
        else if matches TK_IDENT ?p1 then parseCommand lexer ?p1
        else (case parseExpression lexer ?p1 of
                (None, p2) \<Rightarrow> (None, p2)
              | (Some expr, p2) \<Rightarrow> (Some (AstExpr expr), p2))) = (res, p2)"
      by (cases "if matches TK_DIRECTIVE ?p1 then parseDirective lexer ?p1
        else if matches TK_LABEL ?p1 then parseLabel ?p1
        else if matches TK_IDENT ?p1 then parseCommand lexer ?p1
        else (case parseExpression lexer ?p1 of
                (None, p2) \<Rightarrow> (None, p2)
              | (Some expr, p2) \<Rightarrow> (Some (AstExpr expr), p2))")
    have st: "keeps ?p1 p2 \<and> (\<forall>stmt. res = Some stmt \<longrightarrow> declaresBound stmt p2)"
    proof (cases "matches TK_DIRECTIVE ?p1")
      case True
      with d parseDirective_result [of lexer ?p1 res p2] show ?thesis
        by (auto simp: declaresBound_def)
    next
      case nd: False
      show ?thesis
      proof (cases "matches TK_LABEL ?p1")
        case True
        with nd d parseLabel_result [of ?p1 res p2] show ?thesis
          by (auto simp: declaresBound_def labelBound_def)
      next
        case nl: False
        show ?thesis
        proof (cases "matches TK_IDENT ?p1")
          case True
          with nd nl d parseCommand_result [of lexer ?p1 res p2] show ?thesis
            by (auto intro: notLabelDecl_declaresBound)
        next
          case False
          with nd nl d show ?thesis
            by (auto simp: declaresBound_def split: prod.splits option.splits
                  dest: keeps_parseExpression)
        qed
      qed
    qed
    have r: "r = res" and p': "p' = (if res \<noteq> None \<and> hasNext (m_tokenStream p2) then snd (expectEndOfStmt p2) else p2)"
      using a True d by (auto simp: parseStatement_def Let_def split: if_splits)
    have k3: "keeps p2 p'" using p' keeps_expectEndOfStmt [of p2] by simp
    from k1 st k3 show ?thesis unfolding r
      by (blast intro: keeps_trans declaresBound_keeps)
  qed
qed

lemma parsedStatements_result:
  "parsedStatements lexer p = (stmts, p') \<Longrightarrow>
     keeps p p' \<and> noback p p' \<and> (\<forall>stmt \<in> set stmts. declaresBound stmt p')"
proof (induction lexer p arbitrary: stmts p' rule: parsedStatements.induct)
  case (1 lexer p)
  show ?case
  proof (cases "hasNext (m_tokenStream p)")
    case False
    with "1.prems" show ?thesis by (subst (asm) parsedStatements.simps) auto
  next
    case True
    obtain r p1 where s: "parseStatement lexer p = (r, p1)"
      by (cases "parseStatement lexer p")
    note res = parseStatement_result [OF s] and stp = parseStatement_steps [OF s]
    show ?thesis
    proof (cases r)
      case None
      with "1.prems" True s res stp show ?thesis
        by (subst (asm) parsedStatements.simps) auto
    next
      case (Some stmt)
      obtain rest p2 where t: "parsedStatements lexer p1 = (rest, p2)"
        by (cases "parsedStatements lexer p1")
      have ih: "keeps p1 p2 \<and> noback p1 p2 \<and> (\<forall>stmt \<in> set rest. declaresBound stmt p2)"
        using "1.IH" [OF True s [symmetric] Some t] Some by simp
      have eq: "stmts = stmt # rest" "p' = p2"
        using "1.prems" True s Some t by (subst (asm) parsedStatements.simps, simp)+
      from res Some have "declaresBound stmt p1" by simp
      with ih have "declaresBound stmt p2" by (blast intro: declaresBound_keeps)
      with ih res stp show ?thesis unfolding eq
        by (auto intro: keeps_trans noback_trans)
    qed
  qed
qed

text \<open>The two vectors of the loop are the hoisted and the other statements, each in parse order.\<close>

lemma parseLoop_parsedStatements:
  "parseLoop lexer isHoisted hoisted otherStmts p =
     ((hoisted @ filter isHoisted (fst (parsedStatements lexer p)),
       otherStmts @ filter (\<lambda>stmt. \<not> isHoisted stmt) (fst (parsedStatements lexer p))),
      snd (parsedStatements lexer p))"
proof (induction lexer isHoisted hoisted otherStmts p rule: parseLoop.induct)
  case (1 lexer isHoisted hoisted otherStmts p)
  show ?case
  proof (cases "hasNext (m_tokenStream p)")
    case False
    then show ?thesis
      by (subst parseLoop.simps, subst (1 2 3) parsedStatements.simps) simp
  next
    case True
    obtain r p1 where s: "parseStatement lexer p = (r, p1)"
      by (cases "parseStatement lexer p")
    show ?thesis
    proof (cases r)
      case None
      with True s show ?thesis
        by (subst parseLoop.simps, subst (1 2 3) parsedStatements.simps) simp
    next
      case (Some stmt)
      show ?thesis
      proof (cases "isHoisted stmt")
        case h: True
        from "1.IH"(1) [OF True s [symmetric] Some h] True s Some h show ?thesis
          by (subst parseLoop.simps, subst (1 2 3) parsedStatements.simps)
             (simp split: prod.splits)
      next
        case h: False
        from "1.IH"(2) [OF True s [symmetric] Some h] True s Some h show ?thesis
          by (subst parseLoop.simps, subst (1 2 3) parsedStatements.simps)
             (simp split: prod.splits)
      qed
    qed
  qed
qed

text \<open>The loop of \<open>parse\<close> ends when the stream is drained or when a statement fails.\<close>

lemma parsedStatements_end:
  "parsedStatements lexer p = (stmts, p') \<Longrightarrow>
     \<not> hasNext (m_tokenStream p') \<or>
     (\<exists>q. hasNext (m_tokenStream q) \<and> parseStatement lexer q = (None, p'))"
proof (induction lexer p arbitrary: stmts p' rule: parsedStatements.induct)
  case (1 lexer p)
  show ?case
  proof (cases "hasNext (m_tokenStream p)")
    case False
    with "1.prems" show ?thesis by (subst (asm) parsedStatements.simps) auto
  next
    case True
    obtain r p1 where s: "parseStatement lexer p = (r, p1)"
      by (cases "parseStatement lexer p")
    show ?thesis
    proof (cases r)
      case None
      with "1.prems" True s have "p' = p1" by (subst (asm) parsedStatements.simps) auto
      with True s None show ?thesis by blast
    next
      case (Some stmt)
      obtain rest p2 where t: "parsedStatements lexer p1 = (rest, p2)"
        by (cases "parsedStatements lexer p1")
      have "p' = p2"
        using "1.prems" True s Some t by (subst (asm) parsedStatements.simps) simp
      with "1.IH" [OF True s [symmetric] Some t] show ?thesis by simp
    qed
  qed
qed

subsection \<open>Hoisting\<close>

text \<open>
  Claim C2 as it is written fails, in two ways. Not every statement of every token stream
  is collected, and not every label declared in the unit is found: on the tokens of
  \<^verbatim>\<open>jmp lbl\<close>, \<^verbatim>\<open>cmp\<close> and \<^verbatim>\<open>lbl:\<close>, one to a line, \<open>parse\<close> pushes the jump alone and
  leaves the name \<open>lbl\<close> unbound, with the declaration of the label still in the stream,
  where \<open>parseStatement\<close> would parse it. And a reference does depend on the textual order
  when it stands in an interpolation, which is resolved while parsing: on \<^verbatim>\<open>other:\<close>, a
  jump to an interpolation whose body lexes to the names \<open>lbl\<close> and \<open>other\<close>, and
  \<^verbatim>\<open>lbl:\<close>, the three statements are parsed, both declarations are hoisted and \<open>lbl\<close> is
  bound at the end, yet the jump has got the diagnostic that \<open>lbl\<close> is undeclared.
\<close>

theorem parse_collects_all_counterexample:
  "m_astIterator (parse (example_lexer []) isHoisted_spec (example_parser jmp_cmp_label))
     = [AstJmpStatement (AstIdentifier ''lbl'' (example_loc 1 4)) JumpNone (example_loc 1 0)]
   \<and> bg_get (m_boundGlobals (m_compilationUnit
        (parse (example_lexer []) isHoisted_spec (example_parser jmp_cmp_label)))) ''lbl'' = None
   \<and> cursor (parse (example_lexer []) isHoisted_spec (example_parser jmp_cmp_label)) = 5
   \<and> fst (parseStatement (example_lexer [])
        (parse (example_lexer []) isHoisted_spec (example_parser jmp_cmp_label)))
       = Some (AstLabelDecl ''lbl'' (AstLabel ''lbl'' (example_loc 3 0)) (example_loc 3 0))
   \<and> m_astIterator (parse (example_lexer interpolation_body) isHoisted_spec
        (example_parser interpolation_before_label))
       = [AstLabelDecl ''other'' (AstLabel ''other'' (example_loc 1 0)) (example_loc 1 0),
          AstLabelDecl ''lbl'' (AstLabel ''lbl'' (example_loc 3 0)) (example_loc 3 0),
          AstJmpStatement (AstLabel ''other'' (example_loc 1 0)) JumpNone (example_loc 2 0)]
   \<and> m_errorList (m_compilationUnit (parse (example_lexer interpolation_body) isHoisted_spec
        (example_parser interpolation_before_label)))
       = [\<lparr>getLevel = LEVEL_ERROR, getMessage = Msg_undeclared_identifier,
           getErrorLocation = example_loc 2 6, getText = ErrText ''lbl''\<rparr>]
   \<and> bg_get (m_boundGlobals (m_compilationUnit (parse (example_lexer interpolation_body)
        isHoisted_spec (example_parser interpolation_before_label)))) ''lbl''
       = Some (AstLabel ''lbl'' (example_loc 3 0))"
  by code_simp

text \<open>
  Claim C2, amended. For every token stream, \<open>parse\<close> appends to the sequence of
  statements every statement that its loop gets from \<open>parseStatement\<close>, up to the end of
  the stream or the first statement that fails, none lost and none twice: first all the
  hoisted ones, then all the others, each group in the order in which it was parsed. Every
  label declaration among them is bound, in the symbol table that \<open>parse\<close> leaves, to a
  label of its name; so whenever a jump or a compare among them has an identifier for an
  operand that names a label declared among them, before it or after it in the text, the
  name is bound to that label in the table.
\<close>

theorem parse_hoists:
  "m_astIterator (parse lexer isHoisted p) =
     m_astIterator p
       @ filter isHoisted (fst (parsedStatements lexer (skipStatementTerminators p)))
       @ filter (\<lambda>stmt. \<not> isHoisted stmt) (fst (parsedStatements lexer (skipStatementTerminators p)))
   \<and> length (m_astIterator (parse lexer isHoisted p)) =
       length (m_astIterator p) + length (fst (parsedStatements lexer (skipStatementTerminators p)))
   \<and> (\<forall>name lbl loc.
        AstLabelDecl name lbl loc \<in> set (fst (parsedStatements lexer (skipStatementTerminators p))) \<longrightarrow>
        (\<exists>loc'. bg_get (m_boundGlobals (m_compilationUnit (parse lexer isHoisted p))) name
                  = Some (AstLabel name loc')))
   \<and> (\<forall>stmt \<in> set (fst (parsedStatements lexer (skipStatementTerminators p))).
        \<forall>name \<in> set (operandNames stmt).
          (\<exists>lbl loc. AstLabelDecl name lbl loc
              \<in> set (fst (parsedStatements lexer (skipStatementTerminators p)))) \<longrightarrow>
          (\<exists>loc'. bg_get (m_boundGlobals (m_compilationUnit (parse lexer isHoisted p))) name
                    = Some (AstLabel name loc')))
   \<and> (\<not> hasNext (m_tokenStream (parse lexer isHoisted p)) \<or>
       (\<exists>q. hasNext (m_tokenStream q) \<and> fst (parseStatement lexer q) = None
            \<and> m_tokenStream (snd (parseStatement lexer q)) = m_tokenStream (parse lexer isHoisted p)))"
proof -
  let ?p1 = "skipStatementTerminators p"
  obtain stmts p2 where ps: "parsedStatements lexer ?p1 = (stmts, p2)"
    by (cases "parsedStatements lexer ?p1")
  have pe: "parse lexer isHoisted p =
      p2\<lparr>m_astIterator := m_astIterator p2 @ filter isHoisted stmts
                            @ filter (\<lambda>stmt. \<not> isHoisted stmt) stmts\<rparr>"
    by (simp add: parse_def parseLoop_parsedStatements ps)
  have k: "keeps p p2"
    using keeps_skipStatementTerminators [of p] parsedStatements_result [OF ps]
    by (blast intro: keeps_trans)
  then have ast: "m_astIterator p2 = m_astIterator p" by (simp add: keeps_def)
  have bound: "\<forall>stmt \<in> set stmts. declaresBound stmt p2"
    using parsedStatements_result [OF ps] by simp
  have lab: "\<forall>name lbl loc. AstLabelDecl name lbl loc \<in> set stmts \<longrightarrow>
      (\<exists>loc'. bg_get (m_boundGlobals (m_compilationUnit p2)) name = Some (AstLabel name loc'))"
  proof (intro allI impI)
    fix name lbl loc
    assume "AstLabelDecl name lbl loc \<in> set stmts"
    with bound have "declaresBound (AstLabelDecl name lbl loc) p2" by blast
    then show "\<exists>loc'. bg_get (m_boundGlobals (m_compilationUnit p2)) name = Some (AstLabel name loc')"
      by (simp add: declaresBound_def labelBound_def)
  qed
  have en: "\<not> hasNext (m_tokenStream p2) \<or>
     (\<exists>q. hasNext (m_tokenStream q) \<and> parseStatement lexer q = (None, p2))"
    using ps by (rule parsedStatements_end)
  have len: "length (filter isHoisted stmts) + length (filter (\<lambda>stmt. \<not> isHoisted stmt) stmts)
      = length stmts"
    by (rule sum_length_filter_compl)
  show ?thesis
    unfolding pe using ps ast lab en len by auto
qed

theorem parse_hoists_witness:
  "m_astIterator (parse (example_lexer []) isHoisted_spec (example_parser jmp_then_label)) =
     [AstLabelDecl ''lbl'' (AstLabel ''lbl'' (example_loc 2 0)) (example_loc 2 0),
      AstJmpStatement (AstIdentifier ''lbl'' (example_loc 1 4)) JumpNone (example_loc 1 0)]
   \<and> operandNames (AstJmpStatement (AstIdentifier ''lbl'' (example_loc 1 4)) JumpNone (example_loc 1 0))
       = [''lbl'']
   \<and> (\<exists>loc'. bg_get (m_boundGlobals (m_compilationUnit
         (parse (example_lexer []) isHoisted_spec (example_parser jmp_then_label)))) ''lbl''
        = Some (AstLabel ''lbl'' loc'))"
proof -
  have s: "fst (parsedStatements (example_lexer []) (skipStatementTerminators (example_parser jmp_then_label)))
      = [AstJmpStatement (AstIdentifier ''lbl'' (example_loc 1 4)) JumpNone (example_loc 1 0),
         AstLabelDecl ''lbl'' (AstLabel ''lbl'' (example_loc 2 0)) (example_loc 2 0)]"
    by code_simp
  have a: "m_astIterator (example_parser jmp_then_label) = []"
    by (simp add: example_parser_def)
  show ?thesis
    using parse_hoists [of "example_lexer []" isHoisted_spec "example_parser jmp_then_label"]
    unfolding s a by simp
qed

subsection \<open>A statement that fails to parse\<close>

text \<open>
  Claim C3 as it is written fails. On the tokens of \<^verbatim>\<open>cmp\<close>, a newline and \<^verbatim>\<open>lbl:\<close> the
  first statement fails with one diagnostic, the stream still holds a token, and
  \<open>parseStatement\<close> would make a label declaration of what is left; but \<open>parse\<close> returns
  with the cursor before the label, an empty sequence of statements and the label unbound.
\<close>

theorem parse_continues_counterexample:
  "fst (parseStatement (example_lexer []) (example_parser cmp_then_label)) = None
   \<and> hasNext (m_tokenStream (snd (parseStatement (example_lexer []) (example_parser cmp_then_label))))
   \<and> fst (parseStatement (example_lexer [])
        (snd (parseStatement (example_lexer []) (example_parser cmp_then_label))))
       = Some (AstLabelDecl ''lbl'' (AstLabel ''lbl'' (example_loc 2 0)) (example_loc 2 0))
   \<and> m_astIterator (parse (example_lexer []) isHoisted_spec (example_parser cmp_then_label)) = []
   \<and> cursor (parse (example_lexer []) isHoisted_spec (example_parser cmp_then_label)) = 2
   \<and> hasNext (m_tokenStream (parse (example_lexer []) isHoisted_spec (example_parser cmp_then_label)))
   \<and> bg_get (m_boundGlobals (m_compilationUnit
        (parse (example_lexer []) isHoisted_spec (example_parser cmp_then_label)))) ''lbl'' = None
   \<and> m_errorList (m_compilationUnit
        (parse (example_lexer []) isHoisted_spec (example_parser cmp_then_label)))
       = [\<lparr>getLevel = LEVEL_ERROR, getMessage = Msg_unexpected_eol,
           getErrorLocation = example_loc 1 3, getText = ErrText []\<rparr>]"
  by code_simp

lemma parseLoop_failure:
  "hasNext (m_tokenStream q) \<Longrightarrow> parseStatement lexer q = (None, q') \<Longrightarrow>
     parseLoop lexer isHoisted hoisted otherStmts q = ((hoisted, otherStmts), q')"
  by (subst parseLoop.simps) simp

text \<open>
  Claim C3, amended. Diagnostics are values appended to the list of the unit: \<open>parse\<close>
  is a total function that only extends the list. When \<open>parseStatement\<close> yields no
  statement, the loop of \<open>parse\<close> ends there with its two vectors as they are; if that
  happens at the first statement, \<open>parse\<close> returns the parser that the failing
  \<open>parseStatement\<close> left. Whenever \<open>parse\<close> returns with tokens left in the stream, the
  last thing it did was a \<open>parseStatement\<close> that failed: the tokens after the failing
  statement are not parsed. The statements parsed before the failing one are pushed to the
  sequence, the hoisted ones first.
\<close>

theorem parse_stops_at_failure:
  "(\<exists>new. m_errorList (m_compilationUnit (parse lexer isHoisted p))
            = m_errorList (m_compilationUnit p) @ new)
   \<and> (\<forall>q hoisted otherStmts.
         hasNext (m_tokenStream q) \<and> fst (parseStatement lexer q) = None \<longrightarrow>
         parseLoop lexer isHoisted hoisted otherStmts q
           = ((hoisted, otherStmts), snd (parseStatement lexer q)))
   \<and> (hasNext (m_tokenStream (skipStatementTerminators p))
        \<and> fst (parseStatement lexer (skipStatementTerminators p)) = None \<longrightarrow>
        parse lexer isHoisted p = snd (parseStatement lexer (skipStatementTerminators p)))
   \<and> (hasNext (m_tokenStream (parse lexer isHoisted p)) \<longrightarrow>
        (\<exists>q. hasNext (m_tokenStream q) \<and> fst (parseStatement lexer q) = None
             \<and> m_tokenStream (snd (parseStatement lexer q)) = m_tokenStream (parse lexer isHoisted p)))
   \<and> m_astIterator (parse lexer isHoisted p) =
       m_astIterator p
         @ filter isHoisted (fst (parsedStatements lexer (skipStatementTerminators p)))
         @ filter (\<lambda>stmt. \<not> isHoisted stmt) (fst (parsedStatements lexer (skipStatementTerminators p)))"
proof -
  let ?p1 = "skipStatementTerminators p"
  obtain stmts p2 where ps: "parsedStatements lexer ?p1 = (stmts, p2)"
    by (cases "parsedStatements lexer ?p1")
  have pe: "parse lexer isHoisted p =
      p2\<lparr>m_astIterator := m_astIterator p2 @ filter isHoisted stmts
                            @ filter (\<lambda>stmt. \<not> isHoisted stmt) stmts\<rparr>"
    by (simp add: parse_def parseLoop_parsedStatements ps)
  have k: "keeps p p2"
    using keeps_skipStatementTerminators [of p] parsedStatements_result [OF ps]
    by (blast intro: keeps_trans)
  have c1: "\<exists>new. m_errorList (m_compilationUnit (parse lexer isHoisted p))
            = m_errorList (m_compilationUnit p) @ new"
    using k unfolding pe by (simp add: keeps_def)
  have c2: "\<forall>q hoisted otherStmts.
         hasNext (m_tokenStream q) \<and> fst (parseStatement lexer q) = None \<longrightarrow>
         parseLoop lexer isHoisted hoisted otherStmts q
           = ((hoisted, otherStmts), snd (parseStatement lexer q))"
  proof (intro allI impI)
    fix q hoisted otherStmts
    assume a: "hasNext (m_tokenStream q) \<and> fst (parseStatement lexer q) = None"
    then have "parseStatement lexer q = (None, snd (parseStatement lexer q))"
      by (metis prod.collapse)
    with a show "parseLoop lexer isHoisted hoisted otherStmts q
           = ((hoisted, otherStmts), snd (parseStatement lexer q))"
      by (intro parseLoop_failure) simp_all
  qed
  have c3: "hasNext (m_tokenStream ?p1) \<and> fst (parseStatement lexer ?p1) = None \<longrightarrow>
        parse lexer isHoisted p = snd (parseStatement lexer ?p1)"
    using c2 by (simp add: parse_def)
  have en: "\<not> hasNext (m_tokenStream p2) \<or>
     (\<exists>q. hasNext (m_tokenStream q) \<and> parseStatement lexer q = (None, p2))"
    using ps by (rule parsedStatements_end)
  have c4: "hasNext (m_tokenStream (parse lexer isHoisted p)) \<longrightarrow>
        (\<exists>q. hasNext (m_tokenStream q) \<and> fst (parseStatement lexer q) = None
             \<and> m_tokenStream (snd (parseStatement lexer q)) = m_tokenStream (parse lexer isHoisted p))"
    using en unfolding pe by auto
  have c5: "m_astIterator (parse lexer isHoisted p) =
       m_astIterator p
         @ filter isHoisted (fst (parsedStatements lexer ?p1))
         @ filter (\<lambda>stmt. \<not> isHoisted stmt) (fst (parsedStatements lexer ?p1))"
    using k unfolding pe by (simp add: keeps_def ps)
  from c1 c2 c3 c4 c5 show ?thesis by blast
qed

theorem parse_stops_at_failure_witness:
  "hasNext (m_tokenStream (skipStatementTerminators (example_parser cmp_then_label)))
   \<and> fst (parseStatement (example_lexer []) (skipStatementTerminators (example_parser cmp_then_label))) = None
   \<and> parse (example_lexer []) isHoisted_spec (example_parser cmp_then_label)
       = snd (parseStatement (example_lexer []) (skipStatementTerminators (example_parser cmp_then_label)))
   \<and> cursor (parse (example_lexer []) isHoisted_spec (example_parser cmp_then_label)) = 2"
proof -
  have h: "hasNext (m_tokenStream (skipStatementTerminators (example_parser cmp_then_label)))"
    by code_simp
  have f: "fst (parseStatement (example_lexer []) (skipStatementTerminators (example_parser cmp_then_label))) = None"
    by code_simp
  have c: "cursor (snd (parseStatement (example_lexer []) (skipStatementTerminators (example_parser cmp_then_label)))) = 2"
    by code_simp
  have e: "parse (example_lexer []) isHoisted_spec (example_parser cmp_then_label)
       = snd (parseStatement (example_lexer []) (skipStatementTerminators (example_parser cmp_then_label)))"
    using parse_stops_at_failure [of "example_lexer []" isHoisted_spec "example_parser cmp_then_label"] h f
    by blast
  show ?thesis using h f e c by simp
qed

subsection \<open>The gate before emission\<close>

lemma hasFatalErrors_set: "hasFatalErrors es = (\<exists>e \<in> set es. getLevel e = LEVEL_ERROR)"
  by (simp add: hasFatalErrors_def list_ex_iff)

lemma hasFatalErrors_sortErrors [simp]: "hasFatalErrors (sortErrors es) = hasFatalErrors es"
  by (simp add: hasFatalErrors_set sortErrors_def)

lemma hasFatalErrors_append [simp]:
  "hasFatalErrors (es @ fs) = (hasFatalErrors es \<or> hasFatalErrors fs)"
  by (auto simp: hasFatalErrors_set)

subsection \<open>A compare with no operands\<close>

lemma skipStatementTerminators_other:
  "getTokenClass (peek 0 (m_tokenStream p)) \<noteq> TK_NEWLINE \<Longrightarrow> skipStatementTerminators p = p"
  by (subst skipStatementTerminators.simps) (simp add: match_def Let_def Token_EMPTY_def empty_tok_def)

lemma parseTerm_end_of_stream:
  assumes "\<not> hasNext (m_tokenStream p)" and "m_tokens (m_tokenStream p) \<noteq> []"
  shows "parseTerm lexer p =
      (None, report Msg_unexpected_eof (getLocation (last (m_tokens (m_tokenStream p)))) (ErrText []) p)"
proof -
  have pk: "peek 0 (m_tokenStream p) = Token_EMPTY"
    using assms(1) by (simp add: peek_def hasNext_def)
  have cl: "currentLocation p = getLocation (last (m_tokens (m_tokenStream p)))"
    using assms by (simp add: currentLocation_def getSize_def last_tok_def)
  show ?thesis
    using pk cl assms(1) by (simp add: parseTerm_def Let_def empty_tok_def Token_EMPTY_def)
qed

lemma parseStatement_cmp:
  assumes "t = peek 0 (m_tokenStream p)" and "getTokenClass t = TK_IDENT" and "getValue t = ''cmp''"
    and "\<not> hasNext (m_tokenStream (advance p))
         \<or> getTokenClass (peek 0 (m_tokenStream (advance p))) = TK_NEWLINE"
  shows "parseStatement lexer p =
     (None,
      if hasNext (m_tokenStream (advance p))
      then advance (report Msg_unexpected_eol
                      (getLocation (peek 0 (m_tokenStream (advance p)))) (ErrText []) (advance p))
      else report Msg_unexpected_eof (getLocation t) (ErrText []) (advance p))"
proof -
  have ne: "\<not> empty_tok t" using assms(2) by (simp add: empty_tok_def)
  have hn: "hasNext (m_tokenStream p)" using assms(1) ne by (simp add: peek_nonempty_hasNext)
  have sk: "skipStatementTerminators p = p"
    using assms(1,2) by (intro skipStatementTerminators_other) simp
  have m: "\<not> matches TK_DIRECTIVE p" "\<not> matches TK_LABEL p" "matches TK_IDENT p"
    using assms(1,2) by (simp_all add: matches_iff empty_tok_def)
  have e: "expect TK_IDENT True p = (t, advance p)"
    using expect_matching(1) [OF assms(1,2)] by simp
  have j: "jumpModeStrings ''cmp'' = None" by (simp add: jumpModeStrings_def)
  let ?q = "if hasNext (m_tokenStream (advance p))
      then advance (report Msg_unexpected_eol
                      (getLocation (peek 0 (m_tokenStream (advance p)))) (ErrText []) (advance p))
      else report Msg_unexpected_eof (getLocation t) (ErrText []) (advance p)"
  have pt: "parseTerm lexer (advance p) = (None, ?q)"
  proof (cases "hasNext (m_tokenStream (advance p))")
    case True
    with assms(4) have nl: "getTokenClass (peek 0 (m_tokenStream (advance p))) = TK_NEWLINE" by simp
    show ?thesis
      using parseTerm_last_branch [of "peek 0 (m_tokenStream (advance p))" "advance p" lexer] nl True
      by (simp add: empty_tok_def)
  next
    case False
    have tk: "m_tokens (m_tokenStream (advance p)) \<noteq> []"
      using hn by (auto simp: hasNext_def)
    have ln: "length (m_tokens (m_tokenStream p)) - 1 = m_position (m_tokenStream p)"
      using hn False by (simp add: hasNext_def advance_def next_tok_def)
    have "m_tokens (m_tokenStream p) \<noteq> []" using hn by (auto simp: hasNext_def)
    then have "last (m_tokens (m_tokenStream p)) = m_tokens (m_tokenStream p) ! m_position (m_tokenStream p)"
      using ln by (simp add: last_conv_nth)
    then have l: "last (m_tokens (m_tokenStream (advance p))) = t"
      using assms(1) hn by (simp add: peek_def hasNext_def)
    show ?thesis
      using parseTerm_end_of_stream [OF False tk, of lexer] l False by simp
  qed
  have pc: "parseCommand lexer p = (None, ?q)"
    using e assms(2,3) j pt by (simp add: parseCommand_def empty_tok_def parseExpression_def)
  have "parseStatement lexer p = (None, ?q)"
    using sk hn m pc by (simp add: parseStatement_def Let_def)
  then show ?thesis .
qed

lemma hasFatalErrors_Cons [simp]:
  "hasFatalErrors (e # es) = (getLevel e = LEVEL_ERROR \<or> hasFatalErrors es)"
  by (simp add: hasFatalErrors_def)

lemma hasFatalErrors_Nil [simp]: "\<not> hasFatalErrors []"
  by (simp add: hasFatalErrors_def)

text \<open>
  Claim C5 as it is written fails: on \<^verbatim>\<open>cmp\<close> alone, and on \<^verbatim>\<open>cmp\<close> before a newline,
  the parser appends one diagnostic, not one for each of the two operands. \<open>parseCommand\<close>
  returns when the first operand is missing and never asks for the second.
\<close>

theorem cmp_two_diagnostics_counterexample:
  "m_errorList (m_compilationUnit (parse (example_lexer []) isHoisted_spec
      (Parser_new cmp_alone CompilationUnit_new)))
     = [\<lparr>getLevel = LEVEL_ERROR, getMessage = Msg_unexpected_eof,
         getErrorLocation = example_loc 1 0, getText = ErrText []\<rparr>]
   \<and> length (m_errorList (m_compilationUnit (parse (example_lexer []) isHoisted_spec
      (Parser_new cmp_alone CompilationUnit_new)))) \<noteq> 2
   \<and> m_errorList (m_compilationUnit (parse (example_lexer []) isHoisted_spec
      (Parser_new cmp_newline CompilationUnit_new)))
     = [\<lparr>getLevel = LEVEL_ERROR, getMessage = Msg_unexpected_eol,
         getErrorLocation = example_loc 1 3, getText = ErrText []\<rparr>]
   \<and> length (m_errorList (m_compilationUnit (parse (example_lexer []) isHoisted_spec
      (Parser_new cmp_newline CompilationUnit_new)))) \<noteq> 2"
  by code_simp

text \<open>
  Claim C5, amended. For the statement \<^verbatim>\<open>cmp\<close> with no operands, where the stream ends
  after \<^verbatim>\<open>cmp\<close> or a newline follows it, \<open>parseStatement\<close> appends exactly one diagnostic,
  for the first missing operand (unexpected end of file at the end of the stream, unexpected
  end of line before a newline), yields no statement, and consumes the token \<^verbatim>\<open>cmp\<close> and
  the newline. On a stream that begins with this statement, \<open>parse\<close> returns (it is a
  total function) with that one diagnostic, no statement pushed and the cursor behind the
  tokens consumed; the diagnostic is fatal, so \<open>buildSourceFile\<close> on a source that lexes
  to such a stream fails and compiles no chunk, whatever the analyzer adds.
\<close>

theorem cmp_without_operands:
  assumes "getTokenClass t = TK_IDENT" and "getValue t = ''cmp''"
    and "rest = [] \<or> (\<exists>nl more. rest = nl # more \<and> getTokenClass nl = TK_NEWLINE)"
  shows "(\<forall>p. peek 0 (m_tokenStream p) = t
             \<and> (\<not> hasNext (m_tokenStream (advance p))
                  \<or> getTokenClass (peek 0 (m_tokenStream (advance p))) = TK_NEWLINE) \<longrightarrow>
            fst (parseStatement lexer p) = None
            \<and> m_errorList (m_compilationUnit (snd (parseStatement lexer p))) =
                m_errorList (m_compilationUnit p) @
                  [if hasNext (m_tokenStream (advance p))
                   then \<lparr>getLevel = LEVEL_ERROR, getMessage = Msg_unexpected_eol,
                         getErrorLocation = getLocation (peek 0 (m_tokenStream (advance p))),
                         getText = ErrText []\<rparr>
                   else \<lparr>getLevel = LEVEL_ERROR, getMessage = Msg_unexpected_eof,
                         getErrorLocation = getLocation t, getText = ErrText []\<rparr>]
            \<and> cursor (snd (parseStatement lexer p)) =
                cursor p + (if hasNext (m_tokenStream (advance p)) then 2 else 1)
            \<and> m_astIterator (snd (parseStatement lexer p)) = m_astIterator p)
    \<and> m_astIterator (parse lexer isHoisted (Parser_new (t # rest) unit)) = []
    \<and> m_errorList (m_compilationUnit (parse lexer isHoisted (Parser_new (t # rest) unit))) =
        m_errorList unit @
          [\<lparr>getLevel = LEVEL_ERROR,
            getMessage = (if rest = [] then Msg_unexpected_eof else Msg_unexpected_eol),
            getErrorLocation = getLocation (if rest = [] then t else hd rest), getText = ErrText []\<rparr>]
    \<and> cursor (parse lexer isHoisted (Parser_new (t # rest) unit)) = (if rest = [] then 1 else 2)
    \<and> (length rest \<le> 1 \<longrightarrow>
          \<not> hasNext (m_tokenStream (parse lexer isHoisted (Parser_new (t # rest) unit))))
    \<and> hasFatalErrors (m_errorList (m_compilationUnit (parse lexer isHoisted (Parser_new (t # rest) unit))))
    \<and> (lexer filename src = (t # rest, []) \<longrightarrow>
         fst (fst (buildSourceFile lexer isHoisted analyzer build filename (Some src) unit)) = False
         \<and> snd (buildSourceFile lexer isHoisted analyzer build filename (Some src) unit) = None)"
proof -
  have stmt: "\<forall>p. peek 0 (m_tokenStream p) = t
             \<and> (\<not> hasNext (m_tokenStream (advance p))
                  \<or> getTokenClass (peek 0 (m_tokenStream (advance p))) = TK_NEWLINE) \<longrightarrow>
            fst (parseStatement lexer p) = None
            \<and> m_errorList (m_compilationUnit (snd (parseStatement lexer p))) =
                m_errorList (m_compilationUnit p) @
                  [if hasNext (m_tokenStream (advance p))
                   then \<lparr>getLevel = LEVEL_ERROR, getMessage = Msg_unexpected_eol,
                         getErrorLocation = getLocation (peek 0 (m_tokenStream (advance p))),
                         getText = ErrText []\<rparr>
                   else \<lparr>getLevel = LEVEL_ERROR, getMessage = Msg_unexpected_eof,
                         getErrorLocation = getLocation t, getText = ErrText []\<rparr>]
            \<and> cursor (snd (parseStatement lexer p)) =
                cursor p + (if hasNext (m_tokenStream (advance p)) then 2 else 1)
            \<and> m_astIterator (snd (parseStatement lexer p)) = m_astIterator p"
  proof (intro allI impI)
    fix p
    assume a: "peek 0 (m_tokenStream p) = t
             \<and> (\<not> hasNext (m_tokenStream (advance p))
                  \<or> getTokenClass (peek 0 (m_tokenStream (advance p))) = TK_NEWLINE)"
    then have pk: "t = peek 0 (m_tokenStream p)" by simp
    have hn: "hasNext (m_tokenStream p)"
      using pk assms(1) by (simp add: peek_nonempty_hasNext empty_tok_def)
    note st = parseStatement_cmp [OF pk assms(1,2), of lexer]
    show "fst (parseStatement lexer p) = None
            \<and> m_errorList (m_compilationUnit (snd (parseStatement lexer p))) =
                m_errorList (m_compilationUnit p) @
                  [if hasNext (m_tokenStream (advance p))
                   then \<lparr>getLevel = LEVEL_ERROR, getMessage = Msg_unexpected_eol,
                         getErrorLocation = getLocation (peek 0 (m_tokenStream (advance p))),
                         getText = ErrText []\<rparr>
                   else \<lparr>getLevel = LEVEL_ERROR, getMessage = Msg_unexpected_eof,
                         getErrorLocation = getLocation t, getText = ErrText []\<rparr>]
            \<and> cursor (snd (parseStatement lexer p)) =
                cursor p + (if hasNext (m_tokenStream (advance p)) then 2 else 1)
            \<and> m_astIterator (snd (parseStatement lexer p)) = m_astIterator p"
      using st a hn by (simp add: errorList_report cursor_advance)
  qed
  let ?p = "Parser_new (t # rest) unit"
  let ?e = "\<lparr>getLevel = LEVEL_ERROR,
            getMessage = (if rest = [] then Msg_unexpected_eof else Msg_unexpected_eol),
            getErrorLocation = getLocation (if rest = [] then t else hd rest), getText = ErrText []\<rparr>"
  let ?q = "\<lparr>m_astIterator = [],
       m_tokenStream = \<lparr>m_tokens = t # rest, m_position = (if rest = [] then 1 else 2)\<rparr>,
       m_compilationUnit = unit\<lparr>m_errorList := m_errorList unit @ [?e]\<rparr>\<rparr>"
  have pk: "t = peek 0 (m_tokenStream ?p)" by (simp add: Parser_new_def peek_def)
  have sk: "skipStatementTerminators ?p = ?p"
    using assms(1) by (intro skipStatementTerminators_other) (simp add: pk [symmetric])
  have hn: "hasNext (m_tokenStream ?p)" by (simp add: Parser_new_def hasNext_def)
  have nx: "\<not> hasNext (m_tokenStream (advance ?p))
         \<or> getTokenClass (peek 0 (m_tokenStream (advance ?p))) = TK_NEWLINE"
    using assms(3) by (auto simp: Parser_new_def advance_def next_tok_def hasNext_def peek_def)
  have st: "parseStatement lexer ?p = (None, ?q)"
    unfolding parseStatement_cmp [OF pk assms(1,2) nx, of lexer] using assms(3)
    by (auto simp: Parser_new_def advance_def next_tok_def hasNext_def peek_def report_def addError_def)
  have lp: "parseLoop lexer isHoisted [] [] ?p = (([], []), ?q)"
    using hn st by (rule parseLoop_failure)
  have pe: "parse lexer isHoisted ?p = ?q"
    by (simp add: parse_def sk lp)
  have fatal: "hasFatalErrors (m_errorList unit @ [?e])"
    by simp
  have gate: "lexer filename src = (t # rest, []) \<longrightarrow>
         fst (fst (buildSourceFile lexer isHoisted analyzer build filename (Some src) unit)) = False
         \<and> snd (buildSourceFile lexer isHoisted analyzer build filename (Some src) unit) = None"
  proof
    assume l: "lexer filename src = (t # rest, [])"
    have ap: "analyzedParser lexer isHoisted filename src unit = ?q"
      by (simp add: analyzedParser_def l pe)
    have "hasFatalErrors (m_errorList (analyzedUnit lexer isHoisted analyzer filename src unit))"
      using fatal by (simp add: analyzedUnit_def Let_def ap)
    then show "fst (fst (buildSourceFile lexer isHoisted analyzer build filename (Some src) unit)) = False
         \<and> snd (buildSourceFile lexer isHoisted analyzer build filename (Some src) unit) = None"
      by (simp add: buildSourceFile_def Let_def)
  qed
  have en: "length rest \<le> 1 \<longrightarrow> \<not> hasNext (m_tokenStream ?q)"
    by (cases rest) (auto simp: hasNext_def)
  show ?thesis
    unfolding pe using stmt fatal gate pe en by (simp add: cursor_def)
qed

theorem cmp_without_operands_witness:
  "fst (parseStatement (example_lexer cmp_then_label) (Parser_new cmp_then_label CompilationUnit_new)) = None
   \<and> m_errorList (m_compilationUnit (parse (example_lexer cmp_then_label) isHoisted_spec
       (Parser_new cmp_then_label CompilationUnit_new)))
     = [\<lparr>getLevel = LEVEL_ERROR, getMessage = Msg_unexpected_eol,
         getErrorLocation = example_loc 1 3, getText = ErrText []\<rparr>]
   \<and> cursor (parse (example_lexer cmp_then_label) isHoisted_spec
       (Parser_new cmp_then_label CompilationUnit_new)) = 2
   \<and> snd (buildSourceFile (example_lexer cmp_then_label) isHoisted_spec (\<lambda>ast unit. [])
       (\<lambda>stmt st. st) ''a.s'' (Some ''cmp'') CompilationUnit_new) = None"
proof -
  let ?t = "example_tok TK_IDENT ''cmp'' 1 0"
  let ?rest = "[example_tok TK_NEWLINE [] 1 3, example_tok TK_LABEL ''lbl'' 2 0]"
  let ?p = "Parser_new cmp_then_label CompilationUnit_new"
  have a1: "getTokenClass ?t = TK_IDENT" and a2: "getValue ?t = ''cmp''"
    by (simp_all add: example_tok_def)
  have a3: "?rest = [] \<or> (\<exists>nl more. ?rest = nl # more \<and> getTokenClass nl = TK_NEWLINE)"
    by (simp add: example_tok_def)
  have toks: "cmp_then_label = ?t # ?rest" by (simp add: cmp_then_label_def)
  have pk: "peek 0 (m_tokenStream ?p) = ?t"
    by (simp add: toks Parser_new_def peek_def)
  have nl: "getTokenClass (peek 0 (m_tokenStream (advance ?p))) = TK_NEWLINE"
    by (simp add: toks Parser_new_def peek_def advance_def next_tok_def example_tok_def)
  have lx: "example_lexer cmp_then_label ''a.s'' ''cmp'' = (?t # ?rest, [])"
    by (simp add: example_lexer_def toks)
  note th = cmp_without_operands [OF a1 a2 a3, where lexer = "example_lexer cmp_then_label"
      and filename = "''a.s''" and src = "''cmp''" and isHoisted = isHoisted_spec
      and unit = CompilationUnit_new and analyzer = "\<lambda>ast unit. []" and build = "\<lambda>stmt st. st"]
  have c1: "fst (parseStatement (example_lexer cmp_then_label) ?p) = None"
    using th [THEN conjunct1, rule_format, of ?p] pk nl by simp
  have c2: "m_errorList (m_compilationUnit (parse (example_lexer cmp_then_label) isHoisted_spec ?p))
     = [\<lparr>getLevel = LEVEL_ERROR, getMessage = Msg_unexpected_eol,
         getErrorLocation = example_loc 1 3, getText = ErrText []\<rparr>]"
    using th [THEN conjunct2, THEN conjunct2, THEN conjunct1]
    by (simp add: toks CompilationUnit_new_def example_tok_def)
  have c3: "cursor (parse (example_lexer cmp_then_label) isHoisted_spec ?p) = 2"
    using th [THEN conjunct2, THEN conjunct2, THEN conjunct2, THEN conjunct1]
    by (simp add: toks)
  have c4: "snd (buildSourceFile (example_lexer cmp_then_label) isHoisted_spec (\<lambda>ast unit. [])
       (\<lambda>stmt st. st) ''a.s'' (Some ''cmp'') CompilationUnit_new) = None"
    using th lx by simp
  from c1 c2 c3 c4 show ?thesis by simp
qed

subsection \<open>Emission runs when no diagnostic is fatal\<close>

text \<open>
  Claim C1 as it is written fails. A source with no statement (here one that lexes to no
  token) has no diagnostic at all, the emission pass runs and \<open>buildSourceFile\<close>
  succeeds, but the pass over an empty sequence of statements invokes no build operation,
  whatever the build operations are, and the chunk stays empty. And a compilation whose
  file could not be opened has no diagnostic either, fatal or not, and makes no chunk.
\<close>

theorem nonempty_chunk_counterexample:
  "\<forall>build.
     buildSourceFile (example_lexer []) isHoisted_spec (\<lambda>ast unit. []) build ''a.s'' (Some [])
        CompilationUnit_new = ((True, []), Some [])
     \<and> m_errorList (analyzedUnit (example_lexer []) isHoisted_spec (\<lambda>ast unit. []) ''a.s'' []
          CompilationUnit_new) = []
     \<and> buildSourceFile (example_lexer []) isHoisted_spec (\<lambda>ast unit. []) build ''a.s'' None
          CompilationUnit_new = ((False, []), None)
     \<and> m_errorList CompilationUnit_new = []"
proof
  fix build
  have p: "m_astIterator (analyzedParser (example_lexer []) isHoisted_spec ''a.s'' [] CompilationUnit_new) = []"
    by code_simp
  have e: "m_errorList (analyzedUnit (example_lexer []) isHoisted_spec (\<lambda>ast unit. []) ''a.s'' []
             CompilationUnit_new) = []"
    by code_simp
  show "buildSourceFile (example_lexer []) isHoisted_spec (\<lambda>ast unit. []) build ''a.s'' (Some [])
        CompilationUnit_new = ((True, []), Some [])
     \<and> m_errorList (analyzedUnit (example_lexer []) isHoisted_spec (\<lambda>ast unit. []) ''a.s'' []
          CompilationUnit_new) = []
     \<and> buildSourceFile (example_lexer []) isHoisted_spec (\<lambda>ast unit. []) build ''a.s'' None
          CompilationUnit_new = ((False, []), None)
     \<and> m_errorList CompilationUnit_new = []"
    by (simp add: buildSourceFile_def Let_def p e compile_def)
       (simp add: CompilationUnit_new_def)
qed

lemma compile_append_only:
  assumes "\<forall>stmt st. length (snd st) \<le> length (snd (build stmt st))"
  shows "length (snd st) \<le> length (snd (foldl (\<lambda>st stmt. build stmt st) st ast))"
proof (induction ast arbitrary: st)
  case Nil
  then show ?case by simp
next
  case (Cons stmt ast)
  have "length (snd st) \<le> length (snd (build stmt st))" using assms by blast
  also have "\<dots> \<le> length (snd (foldl (\<lambda>st stmt. build stmt st) (build stmt st) ast))"
    by (rule Cons.IH)
  finally show ?case by simp
qed

lemma compile_emits:
  assumes "\<forall>stmt st. length (snd st) \<le> length (snd (build stmt st))"
    and "stmt \<in> set ast"
    and "\<forall>st. length (snd st) < length (snd (build stmt st))"
  shows "length (snd st) < length (snd (foldl (\<lambda>st stmt. build stmt st) st ast))"
  using assms(2)
proof (induction ast arbitrary: st)
  case Nil
  then show ?case by simp
next
  case (Cons x ast)
  show ?case
  proof (cases "x = stmt")
    case True
    have "length (snd st) < length (snd (build stmt st))" using assms(3) by blast
    also have "\<dots> \<le> length (snd (foldl (\<lambda>st stmt. build stmt st) (build stmt st) ast))"
      using assms(1) by (rule compile_append_only)
    finally show ?thesis using True by simp
  next
    case False
    with Cons.prems have "stmt \<in> set ast" by simp
    then have "length (snd (build x st))
        < length (snd (foldl (\<lambda>st stmt. build stmt st) (build x st) ast))"
      by (rule Cons.IH)
    moreover have "length (snd st) \<le> length (snd (build x st))" using assms(1) by blast
    ultimately show ?thesis by simp
  qed
qed

text \<open>
  Claim C1, amended. When the file could be opened, the emission pass of
  \<open>buildSourceFile\<close> runs, and a chunk is made, if and only if the list of diagnostics of
  the unit holds no fatal entry after lexing, parsing and analysis (sorting the list
  changes nothing to that); the function then succeeds and the chunk is what the pass over
  the parsed sequence makes: it is not empty when no build operation shortens the chunk and
  the build operation of some statement of the sequence appends to it, and it is empty when
  the sequence is empty. With a fatal diagnostic the function fails with the sorted
  diagnostics and no chunk is made; nor is one made when the file could not be opened.
\<close>

theorem emission_gate:
  "(snd (buildSourceFile lexer isHoisted analyzer build filename (Some src) unit) \<noteq> None
      \<longleftrightarrow> \<not> hasFatalErrors (m_errorList (analyzedUnit lexer isHoisted analyzer filename src unit)))
   \<and> (fst (fst (buildSourceFile lexer isHoisted analyzer build filename (Some src) unit))
      \<longleftrightarrow> \<not> hasFatalErrors (m_errorList (analyzedUnit lexer isHoisted analyzer filename src unit)))
   \<and> (hasFatalErrors (m_errorList (analyzedUnit lexer isHoisted analyzer filename src unit))
      \<longleftrightarrow> hasFatalErrors (m_errorList unit) \<or> hasFatalErrors (snd (lexer filename src))
          \<or> hasFatalErrors (m_errorList (m_compilationUnit (analyzedParser lexer isHoisted filename src unit)))
          \<or> hasFatalErrors (analyzer (m_astIterator (analyzedParser lexer isHoisted filename src unit))
                (m_compilationUnit (analyzedParser lexer isHoisted filename src unit))))
   \<and> (\<not> hasFatalErrors (m_errorList (analyzedUnit lexer isHoisted analyzer filename src unit)) \<longrightarrow>
        buildSourceFile lexer isHoisted analyzer build filename (Some src) unit =
          ((True, []),
           Some (compile build (m_astIterator (analyzedParser lexer isHoisted filename src unit))
                   (analyzedUnit lexer isHoisted analyzer filename src unit))))
   \<and> (\<not> hasFatalErrors (m_errorList (analyzedUnit lexer isHoisted analyzer filename src unit))
        \<and> (\<forall>stmt st. length (snd st) \<le> length (snd (build stmt st)))
        \<and> (\<exists>stmt \<in> set (m_astIterator (analyzedParser lexer isHoisted filename src unit)).
              \<forall>st. length (snd st) < length (snd (build stmt st))) \<longrightarrow>
        (\<exists>chunk. snd (buildSourceFile lexer isHoisted analyzer build filename (Some src) unit)
                    = Some chunk \<and> chunk \<noteq> []))
   \<and> (\<not> hasFatalErrors (m_errorList (analyzedUnit lexer isHoisted analyzer filename src unit))
        \<and> m_astIterator (analyzedParser lexer isHoisted filename src unit) = [] \<longrightarrow>
        snd (buildSourceFile lexer isHoisted analyzer build filename (Some src) unit) = Some [])
   \<and> (hasFatalErrors (m_errorList (analyzedUnit lexer isHoisted analyzer filename src unit)) \<longrightarrow>
        buildSourceFile lexer isHoisted analyzer build filename (Some src) unit =
          ((False, m_errorList (analyzedUnit lexer isHoisted analyzer filename src unit)), None))
   \<and> buildSourceFile lexer isHoisted analyzer build filename None unit = ((False, []), None)
   \<and> compile build [] unit = []"
proof -
  obtain toks lexErrors where l: "lexer filename src = (toks, lexErrors)"
    by (cases "lexer filename src")
  let ?u = "unit\<lparr>m_errorList := m_errorList unit @ lexErrors\<rparr>"
  let ?ast = "m_astIterator (analyzedParser lexer isHoisted filename src unit)"
  let ?unit = "analyzedUnit lexer isHoisted analyzer filename src unit"
  have ap: "analyzedParser lexer isHoisted filename src unit = parse lexer isHoisted (Parser_new toks ?u)"
    by (simp add: analyzedParser_def l)
  obtain stmts p2 where ps:
    "parsedStatements lexer (skipStatementTerminators (Parser_new toks ?u)) = (stmts, p2)"
    by (cases "parsedStatements lexer (skipStatementTerminators (Parser_new toks ?u))")
  have k: "keeps (Parser_new toks ?u) p2"
    using keeps_skipStatementTerminators [of "Parser_new toks ?u"] parsedStatements_result [OF ps]
    by (blast intro: keeps_trans)
  then obtain new where n: "m_errorList (m_compilationUnit p2) = (m_errorList unit @ lexErrors) @ new"
    by (auto simp: keeps_def Parser_new_def)
  have pe: "m_compilationUnit (parse lexer isHoisted (Parser_new toks ?u)) = m_compilationUnit p2"
    by (simp add: parse_def parseLoop_parsedStatements ps)
  have c3: "hasFatalErrors (m_errorList ?unit)
      \<longleftrightarrow> hasFatalErrors (m_errorList unit) \<or> hasFatalErrors (snd (lexer filename src))
          \<or> hasFatalErrors (m_errorList (m_compilationUnit (analyzedParser lexer isHoisted filename src unit)))
          \<or> hasFatalErrors (analyzer ?ast
                (m_compilationUnit (analyzedParser lexer isHoisted filename src unit)))"
    by (auto simp: analyzedUnit_def Let_def ap pe n l)
  have ne: "(\<forall>stmt st. length (snd st) \<le> length (snd (build stmt st)))
        \<and> (\<exists>stmt \<in> set ?ast. \<forall>st. length (snd st) < length (snd (build stmt st))) \<longrightarrow>
        compile build ?ast ?unit \<noteq> []"
  proof
    assume h: "(\<forall>stmt st. length (snd st) \<le> length (snd (build stmt st)))
        \<and> (\<exists>stmt \<in> set ?ast. \<forall>st. length (snd st) < length (snd (build stmt st)))"
    then obtain stmt where m: "stmt \<in> set ?ast"
      and g: "\<forall>st. length (snd st) < length (snd (build stmt st))" by blast
    from h have a: "\<forall>stmt st. length (snd st) \<le> length (snd (build stmt st))" by simp
    have "length (snd (?unit, [] :: BytecodeChunk))
        < length (snd (foldl (\<lambda>st stmt. build stmt st) (?unit, []) ?ast))"
      using a m g by (rule compile_emits)
    then show "compile build ?ast ?unit \<noteq> []" by (auto simp: compile_def)
  qed
  have b1: "buildSourceFile lexer isHoisted analyzer build filename (Some src) unit =
      (if \<not> hasFatalErrors (m_errorList ?unit)
       then ((True, []), Some (compile build ?ast ?unit))
       else ((False, m_errorList ?unit), None))"
    by (simp add: buildSourceFile_def Let_def)
  show ?thesis
  proof (intro conjI)
    show "snd (buildSourceFile lexer isHoisted analyzer build filename (Some src) unit) \<noteq> None
      \<longleftrightarrow> \<not> hasFatalErrors (m_errorList ?unit)"
      by (simp add: b1)
    show "fst (fst (buildSourceFile lexer isHoisted analyzer build filename (Some src) unit))
      \<longleftrightarrow> \<not> hasFatalErrors (m_errorList ?unit)"
      by (simp add: b1)
    show "hasFatalErrors (m_errorList ?unit)
      \<longleftrightarrow> hasFatalErrors (m_errorList unit) \<or> hasFatalErrors (snd (lexer filename src))
          \<or> hasFatalErrors (m_errorList (m_compilationUnit (analyzedParser lexer isHoisted filename src unit)))
          \<or> hasFatalErrors (analyzer ?ast
                (m_compilationUnit (analyzedParser lexer isHoisted filename src unit)))"
      by (rule c3)
    show "\<not> hasFatalErrors (m_errorList ?unit) \<longrightarrow>
        buildSourceFile lexer isHoisted analyzer build filename (Some src) unit =
          ((True, []), Some (compile build ?ast ?unit))"
      by (simp add: b1)
    show "\<not> hasFatalErrors (m_errorList ?unit)
        \<and> (\<forall>stmt st. length (snd st) \<le> length (snd (build stmt st)))
        \<and> (\<exists>stmt \<in> set ?ast. \<forall>st. length (snd st) < length (snd (build stmt st))) \<longrightarrow>
        (\<exists>chunk. snd (buildSourceFile lexer isHoisted analyzer build filename (Some src) unit)
                    = Some chunk \<and> chunk \<noteq> [])"
      using ne unfolding b1 by auto
    show "\<not> hasFatalErrors (m_errorList ?unit) \<and> ?ast = [] \<longrightarrow>
        snd (buildSourceFile lexer isHoisted analyzer build filename (Some src) unit) = Some []"
      unfolding b1 by (auto simp: compile_def)
    show "hasFatalErrors (m_errorList ?unit) \<longrightarrow>
        buildSourceFile lexer isHoisted analyzer build filename (Some src) unit =
          ((False, m_errorList ?unit), None)"
      by (simp add: b1)
    show "buildSourceFile lexer isHoisted analyzer build filename None unit = ((False, []), None)"
      by (simp add: buildSourceFile_def)
    show "compile build [] unit = []"
      by (simp add: compile_def)
  qed
qed

theorem emission_gate_witness:
  "buildSourceFile (example_lexer jmp_then_label) isHoisted_spec example_analyzer example_build
      ''a.s'' (Some ''jmp lbl'') CompilationUnit_new
     = ((True, []),
        Some (compile example_build
          (m_astIterator (analyzedParser (example_lexer jmp_then_label) isHoisted_spec ''a.s'' ''jmp lbl''
             CompilationUnit_new))
          (analyzedUnit (example_lexer jmp_then_label) isHoisted_spec example_analyzer ''a.s'' ''jmp lbl''
             CompilationUnit_new)))
   \<and> compile example_build
          (m_astIterator (analyzedParser (example_lexer jmp_then_label) isHoisted_spec ''a.s'' ''jmp lbl''
             CompilationUnit_new))
          (analyzedUnit (example_lexer jmp_then_label) isHoisted_spec example_analyzer ''a.s'' ''jmp lbl''
             CompilationUnit_new) = [CHR 0x01, CHR 0x01]
   \<and> (\<exists>chunk. snd (buildSourceFile (example_lexer jmp_then_label) isHoisted_spec example_analyzer
          example_build ''a.s'' (Some ''jmp lbl'') CompilationUnit_new) = Some chunk \<and> chunk \<noteq> [])
   \<and> buildSourceFile (example_lexer cmp_newline) isHoisted_spec example_analyzer example_build
      ''a.s'' (Some ''cmp'') CompilationUnit_new
     = ((False, [\<lparr>getLevel = LEVEL_ERROR, getMessage = Msg_unexpected_eol,
                  getErrorLocation = example_loc 1 3, getText = ErrText []\<rparr>]), None)"
proof -
  have a: "m_errorList (analyzedUnit (example_lexer jmp_then_label) isHoisted_spec example_analyzer
             ''a.s'' ''jmp lbl'' CompilationUnit_new) = []"
    by code_simp
  have b: "m_errorList (analyzedUnit (example_lexer cmp_newline) isHoisted_spec example_analyzer
             ''a.s'' ''cmp'' CompilationUnit_new)
      = [\<lparr>getLevel = LEVEL_ERROR, getMessage = Msg_unexpected_eol,
          getErrorLocation = example_loc 1 3, getText = ErrText []\<rparr>]"
    by code_simp
  have c: "compile example_build
          (m_astIterator (analyzedParser (example_lexer jmp_then_label) isHoisted_spec ''a.s'' ''jmp lbl''
             CompilationUnit_new))
          (analyzedUnit (example_lexer jmp_then_label) isHoisted_spec example_analyzer ''a.s'' ''jmp lbl''
             CompilationUnit_new) = [CHR 0x01, CHR 0x01]"
    by code_simp
  have g: "\<forall>stmt st. length (snd st) \<le> length (snd (example_build stmt st))"
    "\<forall>stmt st. length (snd st) < length (snd (example_build stmt st))"
    by (simp_all add: example_build_def)
  have m: "m_astIterator (analyzedParser (example_lexer jmp_then_label) isHoisted_spec ''a.s'' ''jmp lbl''
             CompilationUnit_new) \<noteq> []"
    by code_simp
  note th1 = emission_gate [where lexer = "example_lexer jmp_then_label" and isHoisted = isHoisted_spec
        and analyzer = example_analyzer and build = example_build and filename = "''a.s''"
        and src = "''jmp lbl''" and unit = CompilationUnit_new]
  note th2 = emission_gate [where lexer = "example_lexer cmp_newline" and isHoisted = isHoisted_spec
        and analyzer = example_analyzer and build = example_build and filename = "''a.s''"
        and src = "''cmp''" and unit = CompilationUnit_new]
  have ex: "\<exists>stmt \<in> set (m_astIterator (analyzedParser (example_lexer jmp_then_label) isHoisted_spec
      ''a.s'' ''jmp lbl'' CompilationUnit_new)). \<forall>st. length (snd st) < length (snd (example_build stmt st))"
    using m g(2) by (metis last_in_set)
  have c1: "buildSourceFile (example_lexer jmp_then_label) isHoisted_spec example_analyzer example_build
      ''a.s'' (Some ''jmp lbl'') CompilationUnit_new
     = ((True, []),
        Some (compile example_build
          (m_astIterator (analyzedParser (example_lexer jmp_then_label) isHoisted_spec ''a.s'' ''jmp lbl''
             CompilationUnit_new))
          (analyzedUnit (example_lexer jmp_then_label) isHoisted_spec example_analyzer ''a.s'' ''jmp lbl''
             CompilationUnit_new)))"
    using th1 by (simp add: a)
  have c3: "\<exists>chunk. snd (buildSourceFile (example_lexer jmp_then_label) isHoisted_spec example_analyzer
          example_build ''a.s'' (Some ''jmp lbl'') CompilationUnit_new) = Some chunk \<and> chunk \<noteq> []"
    using th1 [THEN conjunct2, THEN conjunct2, THEN conjunct2, THEN conjunct2, THEN conjunct1] g(1) ex
    by (simp add: a)
  have c4: "buildSourceFile (example_lexer cmp_newline) isHoisted_spec example_analyzer example_build
      ''a.s'' (Some ''cmp'') CompilationUnit_new
     = ((False, [\<lparr>getLevel = LEVEL_ERROR, getMessage = Msg_unexpected_eol,
                  getErrorLocation = example_loc 1 3, getText = ErrText []\<rparr>]), None)"
    using th2 by (simp add: b)
  from c1 c c3 c4 show ?thesis by simp
qed

end
